theory Spec2Isabelle
  imports Main "HOL-Library.AList"
begin

section \<open>Paths and file names\<close>

text \<open>
  A \<open>pathlib.Path\<close> is modelled by the list of its components, outermost first; the
  empty list is the root.  \<open>p / n\<close> appends one component, \<open>p.name\<close> is the last
  component and \<open>p.parent\<close> drops it.
\<close>

type_synonym path = "string list"

definition joinpath :: "path \<Rightarrow> string \<Rightarrow> path" where
  "joinpath p n = p @ [n]"

definition name :: "path \<Rightarrow> string" where
  "name p = (if p = [] then [] else last p)"

definition parent :: "path \<Rightarrow> path" where
  "parent p = butlast p"

text \<open>
  \<open>str.rfind\<close>: the highest index at which the character occurs, or \<open>-1\<close>.
\<close>

fun rfind :: "char \<Rightarrow> string \<Rightarrow> int" where
  "rfind c [] = -1"
| "rfind c (x # xs) =
     (let r = rfind c xs in
      if 0 \<le> r then r + 1 else if x = c then 0 else -1)"

text \<open>
  \<open>PurePath.suffix\<close> of the Python versions the package declares (3.8 to 3.11):
  \<^verbatim>\<open>
  name = self.name
  i = name.rfind('.')
  if 0 < i < len(name) - 1: return name[i:]
  else: return ''
  \<close>
\<close>

definition suffix_of_name :: "string \<Rightarrow> string" where
  "suffix_of_name nm =
     (let i = rfind (CHR ''.'') nm in
      if 0 < i \<and> i < int (length nm) - 1 then drop (nat i) nm else [])"

definition suffix :: "path \<Rightarrow> string" where
  "suffix p = suffix_of_name (name p)"

text \<open>
  \<open>str.lower\<close> on the ASCII letters; the other characters of the 8-bit \<open>char\<close> are
  left as they are.
\<close>

definition lower_char :: "char \<Rightarrow> char" where
  "lower_char c =
     (case map_of (zip ''ABCDEFGHIJKLMNOPQRSTUVWXYZ'' ''abcdefghijklmnopqrstuvwxyz'') c of
        Some l \<Rightarrow> l
      | None \<Rightarrow> c)"

definition lower :: "string \<Rightarrow> string" where
  "lower s = map lower_char s"

section \<open>The categorizers\<close>

text \<open>
  A category table is a Python \<open>dict\<close> from the category name to the list of its
  extensions; \<open>items()\<close> iterates in insertion order, so the table is an association
  list in that order.
\<close>

type_synonym category_table = "(string \<times> string list) list"

subsection \<open>desktop_cleaner.py\<close>

definition CATEGORIES :: category_table where
  "CATEGORIES =
    [(''Images'', [''.png'', ''.jpg'', ''.jpeg'', ''.gif'', ''.bmp'', ''.svg'', ''.webp'']),
     (''Documents'', [''.pdf'', ''.doc'', ''.docx'', ''.xls'', ''.xlsx'', ''.ppt'', ''.pptx'',
                      ''.txt'', ''.md'']),
     (''Code'', [''.py'', ''.ipynb'', ''.js'', ''.ts'', ''.java'', ''.go'', ''.c'', ''.cpp'',
                 ''.rb'', ''.sh'', ''.yaml'', ''.yml'', ''.json'', ''.tf'']),
     (''Archives'', [''.zip'', ''.tar'', ''.gz'', ''.tgz'', ''.rar'', ''.7z'']),
     (''Media'', [''.mp3'', ''.wav'', ''.m4a'', ''.mp4'', ''.mkv'', ''.avi'', ''.mov''])]"

text \<open>The \<open>for category, exts in CATEGORIES.items()\<close> loop of \<open>classify_file\<close>.\<close>

fun classify_loop :: "category_table \<Rightarrow> string \<Rightarrow> string" where
  "classify_loop [] ext = ''Other''"
| "classify_loop ((category, exts) # rest) ext =
     (if ext \<in> set exts then category else classify_loop rest ext)"

definition classify_file :: "path \<Rightarrow> string" where
  "classify_file p = (let ext = lower (suffix p) in classify_loop CATEGORIES ext)"

subsection \<open>.kiro/src/categorizer.py\<close>

definition CATEGORY_MAPPINGS :: category_table where
  "CATEGORY_MAPPINGS =
    [(''Images'', [''.jpg'', ''.jpeg'', ''.png'', ''.gif'', ''.bmp'', ''.svg'', ''.webp'']),
     (''Documents'', [''.pdf'', ''.doc'', ''.docx'', ''.txt'', ''.odt'', ''.rtf'']),
     (''Videos'', [''.mp4'', ''.avi'', ''.mkv'', ''.mov'', ''.wmv'', ''.flv'']),
     (''Audio'', [''.mp3'', ''.wav'', ''.flac'', ''.aac'', ''.ogg'', ''.m4a'']),
     (''Archives'', [''.zip'', ''.rar'', ''.7z'', ''.tar'', ''.gz'', ''.bz2'']),
     (''Code'', [''.py'', ''.js'', ''.java'', ''.cpp'', ''.c'', ''.html'', ''.css'', ''.json'']),
     (''Spreadsheets'', [''.xlsx'', ''.xls'', ''.csv'', ''.ods'']),
     (''Others'', [])]"

text \<open>
  \<open>FileCategorizer.__init__\<close>: \<open>custom_mappings or CATEGORY_MAPPINGS\<close>; \<open>None\<close> and
  the empty dict are both falsy.
\<close>

definition FileCategorizer :: "category_table option \<Rightarrow> category_table" where
  "FileCategorizer custom_mappings =
     (case custom_mappings of
        None \<Rightarrow> CATEGORY_MAPPINGS
      | Some m \<Rightarrow> if m = [] then CATEGORY_MAPPINGS else m)"

text \<open>The \<open>for category, extensions in self.mappings.items()\<close> loop of \<open>categorize\<close>.\<close>

fun categorize_loop :: "category_table \<Rightarrow> string \<Rightarrow> string" where
  "categorize_loop [] extension = ''Others''"
| "categorize_loop ((category, extensions) # rest) extension =
     (if extension \<in> set extensions then category else categorize_loop rest extension)"

definition categorize :: "category_table \<Rightarrow> path \<Rightarrow> string" where
  "categorize mappings file_path =
     (let extension = lower (suffix file_path) in categorize_loop mappings extension)"


section \<open>The file system\<close>

text \<open>
  The part of the file system the programs touch is an association list from paths to
  nodes, in the order in which the operating system lists them.  A node is a regular
  file with its content, a directory, or something that is neither (a socket, a
  dangling link).  The root is always a directory.  Permissions, devices and links are
  not modelled; renaming follows POSIX, where a rename onto an existing file replaces it.
\<close>

datatype node = File string | Dir | Special

type_synonym filesystem = "(path \<times> node) list"

datatype error =
    FileNotFoundError | FileExistsError | NotADirectoryError | IsADirectoryError
  | OSError | ShutilError

definition node_at :: "filesystem \<Rightarrow> path \<Rightarrow> node option" where
  "node_at fs p = (if p = [] then Some Dir else map_of fs p)"

definition path_exists :: "filesystem \<Rightarrow> path \<Rightarrow> bool" where
  "path_exists fs p = (node_at fs p \<noteq> None)"

definition is_dir :: "filesystem \<Rightarrow> path \<Rightarrow> bool" where
  "is_dir fs p = (node_at fs p = Some Dir)"

definition is_file :: "filesystem \<Rightarrow> path \<Rightarrow> bool" where
  "is_file fs p = (case node_at fs p of Some (File _) \<Rightarrow> True | _ \<Rightarrow> False)"

text \<open>\<open>Path.iterdir\<close>: the direct children, listed when the loop starts.\<close>

definition iterdir :: "filesystem \<Rightarrow> path \<Rightarrow> error + path list" where
  "iterdir fs d =
     (case node_at fs d of
        None \<Rightarrow> Inl FileNotFoundError
      | Some Dir \<Rightarrow> Inr (filter (\<lambda>p. p \<noteq> [] \<and> parent p = d) (map fst fs))
      | Some _ \<Rightarrow> Inl NotADirectoryError)"

text \<open>\<open>Path.mkdir(exist_ok=True)\<close>.\<close>

definition mkdir_exist_ok :: "filesystem \<Rightarrow> path \<Rightarrow> error + filesystem" where
  "mkdir_exist_ok fs p =
     (case node_at fs p of
        Some Dir \<Rightarrow> Inr fs
      | Some _ \<Rightarrow> Inl FileExistsError
      | None \<Rightarrow>
          (case node_at fs (parent p) of
             None \<Rightarrow> Inl FileNotFoundError
           | Some Dir \<Rightarrow> Inr (AList.update p Dir fs)
           | Some _ \<Rightarrow> Inl NotADirectoryError))"

text \<open>
  \<open>os.rename\<close>.  A directory moves with everything below it; a file or special node
  replaces whatever non-directory is at the destination.
\<close>

definition below :: "path \<Rightarrow> path \<Rightarrow> bool" where
  "below d p = (take (length d) p = d)"

definition move_tree :: "path \<Rightarrow> path \<Rightarrow> filesystem \<Rightarrow> filesystem" where
  "move_tree src dst fs =
     map (\<lambda>(p, n). if below src p then (dst @ drop (length src) p, n) else (p, n))
       (AList.delete dst fs)"

definition os_rename :: "filesystem \<Rightarrow> path \<Rightarrow> path \<Rightarrow> error + filesystem" where
  "os_rename fs src dst =
     (case node_at fs src of
        None \<Rightarrow> Inl FileNotFoundError
      | Some sn \<Rightarrow>
          if src = [] \<or> dst = [] then Inl OSError
          else (case node_at fs (parent dst) of
             None \<Rightarrow> Inl FileNotFoundError
           | Some pn \<Rightarrow>
               if pn \<noteq> Dir then Inl NotADirectoryError
               else if src = dst then Inr fs
               else if sn = Dir then
                 (if below src dst then Inl OSError
                  else (case node_at fs dst of
                     None \<Rightarrow> Inr (move_tree src dst fs)
                   | Some Dir \<Rightarrow>
                       if \<exists>q \<in> set (map fst fs). q \<noteq> dst \<and> below dst q then Inl OSError
                       else Inr (move_tree src dst fs)
                   | Some _ \<Rightarrow> Inl NotADirectoryError))
               else if node_at fs dst = Some Dir then Inl IsADirectoryError
               else Inr (AList.update dst sn (AList.delete src fs))))"

section \<open>Effects on the world\<close>

text \<open>
  Every program state extends \<open>world\<close>: the file system and the list of the mutations
  performed so far, oldest first.  The list is what orders a write of the ledger against
  a move; a run that leaves it unchanged has mutated nothing.
\<close>

datatype effect =
    MadeDir path
  | Renamed path path
  | SavedHistory "(path \<times> path) list"
  | WroteLog nat "(path \<times> path) list"

record world =
  fs :: filesystem
  effects :: "effect list"

definition mkdir :: "path \<Rightarrow> 'a world_scheme \<Rightarrow> (error + unit) \<times> 'a world_scheme" where
  "mkdir p s =
     (case mkdir_exist_ok (fs s) p of
        Inl e \<Rightarrow> (Inl e, s)
      | Inr fs' \<Rightarrow>
          (Inr (), s\<lparr>fs := fs',
                     effects := effects s @ (if is_dir (fs s) p then [] else [MadeDir p])\<rparr>))"

text \<open>
  \<open>Path.mkdir(parents=True, exist_ok=True)\<close>: on \<open>FileNotFoundError\<close> the parent
  is created first, then the directory itself.
\<close>

function mkdir_parents :: "path \<Rightarrow> 'a world_scheme \<Rightarrow> (error + unit) \<times> 'a world_scheme" where
  "mkdir_parents p s =
     (case mkdir p s of
        (Inl FileNotFoundError, s') \<Rightarrow>
          if parent p = p then (Inl FileNotFoundError, s')
          else (case mkdir_parents (parent p) s' of
                  (Inl e, s'') \<Rightarrow> (Inl e, s'')
                | (Inr _, s'') \<Rightarrow> mkdir p s'')
      | r \<Rightarrow> r)"
  by pat_completeness auto
termination
proof (relation "measure (\<lambda>(p, s). length p)")
  fix p :: path and s :: "'a world_scheme" and x :: "(error + unit) \<times> 'a world_scheme"
    and a b c and e :: error
  assume "parent p \<noteq> p"
  then have "p \<noteq> []" by (auto simp: parent_def)
  then show "((parent p, b), (p, s)) \<in> measure (\<lambda>(p, s). length p)"
    by (simp add: parent_def)
qed simp

declare mkdir_parents.simps [simp del]

definition rename :: "path \<Rightarrow> path \<Rightarrow> 'a world_scheme \<Rightarrow> (error + unit) \<times> 'a world_scheme" where
  "rename src dst s =
     (case os_rename (fs s) src dst of
        Inl e \<Rightarrow> (Inl e, s)
      | Inr fs' \<Rightarrow> (Inr (), s\<lparr>fs := fs', effects := effects s @ [Renamed src dst]\<rparr>))"

text \<open>
  \<open>shutil.move(src, dst)\<close>: into \<open>dst\<close> when that is a directory, onto \<open>dst\<close>
  otherwise.  When \<open>os.rename\<close> raises, \<open>shutil.move\<close> falls back to copying; on one
  device and with the parent of the destination in place (both callers create it right
  before the call) the copy fails as the rename did, so the model returns the error.
\<close>

definition shutil_move :: "path \<Rightarrow> path \<Rightarrow> 'a world_scheme \<Rightarrow> (error + unit) \<times> 'a world_scheme" where
  "shutil_move src dst s =
     (if is_dir (fs s) dst then
        (if src = dst then rename src dst s
         else
           (let real_dst = joinpath dst (name src) in
            if path_exists (fs s) real_dst then (Inl ShutilError, s)
            else rename src real_dst s))
      else rename src dst s)"

section \<open>.kiro/src: FileCleaner and UndoManager\<close>

datatype level = INFO | WARNING | ERROR

datatype message =
    Loaded nat              \<comment> \<open>Loaded n operations from history\<close>
  | LoadFailed              \<comment> \<open>Failed to load history\<close>
  | SaveFailed              \<comment> \<open>Failed to save history\<close>
  | NoOperations            \<comment> \<open>No operations to undo\<close>
  | Undone path path        \<comment> \<open>Undone: destination -> source\<close>
  | CannotUndo path         \<comment> \<open>Cannot undo: destination does not exist\<close>
  | Organizing path         \<comment> \<open>Organizing directory\<close>
  | WouldMove string string \<comment> \<open>Would move: name -> category/\<close>
  | Moved string string     \<comment> \<open>Moved: name -> category/\<close>

text \<open>
  The history file \<open>.file_organizer_history.json\<close>: absent, present but not readable
  as a JSON list of pairs, or holding a list of (source, destination) pairs.  It is kept
  apart from \<open>fs\<close>: the model takes it to lie outside the organized directory.
  \<open>history_writable\<close> says whether opening it for writing succeeds.
\<close>

datatype stored = Missing | Corrupt | Stored "(path \<times> path) list"

record cleaner = world +
  directory :: path
  mappings :: category_table
  history :: "(path \<times> path) list"
  history_file :: stored
  history_writable :: bool
  logged :: "(level \<times> message) list"

definition info :: "message \<Rightarrow> cleaner \<Rightarrow> cleaner" where
  "info m s = s\<lparr>logged := logged s @ [(INFO, m)]\<rparr>"

definition warning :: "message \<Rightarrow> cleaner \<Rightarrow> cleaner" where
  "warning m s = s\<lparr>logged := logged s @ [(WARNING, m)]\<rparr>"

definition error :: "message \<Rightarrow> cleaner \<Rightarrow> cleaner" where
  "error m s = s\<lparr>logged := logged s @ [(ERROR, m)]\<rparr>"

text \<open>\<open>UndoManager._load_history\<close>: nothing happens when the file does not exist.\<close>

definition load_history :: "cleaner \<Rightarrow> cleaner" where
  "load_history s =
     (case history_file s of
        Missing \<Rightarrow> s
      | Stored data \<Rightarrow> info (Loaded (length data)) (s\<lparr>history := data\<rparr>)
      | Corrupt \<Rightarrow> error LoadFailed s)"

text \<open>
  \<open>FileCleaner.__init__\<close> with \<open>UndoManager.__init__\<close> and
  \<open>FileCategorizer.__init__\<close>: the history starts empty and is then loaded.
\<close>

definition FileCleaner ::
  "path \<Rightarrow> filesystem \<Rightarrow> stored \<Rightarrow> bool \<Rightarrow> cleaner" where
  "FileCleaner dir files hist w =
     load_history
       \<lparr>fs = files, effects = [], directory = dir, mappings = FileCategorizer None,
        history = [], history_file = hist, history_writable = w, logged = []\<rparr>"

definition save_history :: "cleaner \<Rightarrow> cleaner" where
  "save_history s =
     (if history_writable s
      then s\<lparr>effects := effects s @ [SavedHistory (history s)],
              history_file := Stored (history s)\<rparr>
      else error SaveFailed s)"

definition record_move :: "path \<Rightarrow> path \<Rightarrow> cleaner \<Rightarrow> cleaner" where
  "record_move source destination s =
     save_history (s\<lparr>history := history s @ [(source, destination)]\<rparr>)"

definition undo_last :: "cleaner \<Rightarrow> (error + bool) \<times> cleaner" where
  "undo_last s =
     (if history s = [] then (Inr False, warning NoOperations s)
      else
        (let (source, destination) = last (history s);
             s1 = s\<lparr>history := butlast (history s)\<rparr>
         in if path_exists (fs s1) destination then
              (case rename destination source s1 of
                 (Inl e, s2) \<Rightarrow> (Inl e, s2)
               | (Inr _, s2) \<Rightarrow>
                   (Inr True, save_history (info (Undone destination source) s2)))
            else (Inr False, save_history (error (CannotUndo destination) s1))))"

text \<open>
  \<open>UndoManager.undo_all\<close>: \<open>while self.history: self.undo_last()\<close>.  An
  exception raised by \<open>undo_last\<close> leaves the loop.  The loop ends because each
  round pops one record.
\<close>

function undo_all :: "cleaner \<Rightarrow> (error + unit) \<times> cleaner" where
  "undo_all s =
     (if history s = [] then (Inr (), s)
      else (case undo_last s of
              (Inl e, s') \<Rightarrow> (Inl e, s')
            | (Inr _, s') \<Rightarrow> undo_all s'))"
  by pat_completeness auto
termination
  apply (relation "measure (\<lambda>s. length (history s))")
   apply simp
  apply (auto simp: undo_last_def rename_def save_history_def info_def error_def Let_def
              split: prod.splits if_splits sum.splits)
  done

declare undo_all.simps [simp del]

text \<open>\<open>FileCleaner._move_file\<close>.\<close>

definition move_file :: "path \<Rightarrow> path \<Rightarrow> cleaner \<Rightarrow> (error + unit) \<times> cleaner" where
  "move_file file_path target_dir s =
     (case mkdir target_dir s of
        (Inl e, s1) \<Rightarrow> (Inl e, s1)
      | (Inr _, s1) \<Rightarrow>
          (let destination = joinpath target_dir (name file_path);
               s2 = record_move file_path destination s1
           in case rename file_path destination s2 of
                (Inl e, s3) \<Rightarrow> (Inl e, s3)
              | (Inr _, s3) \<Rightarrow> (Inr (), info (Moved (name file_path) (name target_dir)) s3)))"

text \<open>
  \<open>FileCleaner.organize\<close>: the loop over \<open>self.directory.iterdir()\<close>, then the
  method.  \<open>is_file\<close> is asked when the entry is reached, after the earlier moves.
\<close>

fun organize_loop :: "bool \<Rightarrow> path list \<Rightarrow> cleaner \<Rightarrow> (error + unit) \<times> cleaner" where
  "organize_loop dry_run [] s = (Inr (), s)"
| "organize_loop dry_run (file_path # rest) s =
     (if is_file (fs s) file_path then
        (let category = categorize (mappings s) file_path;
             target_dir = joinpath (directory s) category
         in if dry_run then
              organize_loop dry_run rest (info (WouldMove (name file_path) category) s)
            else (case move_file file_path target_dir s of
                    (Inl e, s') \<Rightarrow> (Inl e, s')
                  | (Inr _, s') \<Rightarrow> organize_loop dry_run rest s'))
      else organize_loop dry_run rest s)"

definition organize :: "bool \<Rightarrow> cleaner \<Rightarrow> (error + unit) \<times> cleaner" where
  "organize dry_run s =
     (let s0 = info (Organizing (directory s)) s in
      case iterdir (fs s0) (directory s0) of
        Inl e \<Rightarrow> (Inl e, s0)
      | Inr children \<Rightarrow> organize_loop dry_run children s0)"

section \<open>desktop_cleaner.py\<close>

datatype line =
    NothingToClean            \<comment> \<open>[done] Nothing to clean\<close>
  | DryRunWouldMove string string \<comment> \<open>[dry-run] Would move: name -> category/\<close>
  | DryRunDone nat            \<comment> \<open>[done] n file(s) would be moved\<close>
  | MovedLine string string   \<comment> \<open>[moved] name -> category/\<close>
  | LogWritten nat            \<comment> \<open>[info] Log written to\<close>
  | MovedDone nat             \<comment> \<open>[done] n file(s) moved\<close>
  | NoLogs                    \<comment> \<open>[info] No cleanup logs found\<close>
  | EmptyLog nat              \<comment> \<open>[info] Log contained no moves\<close>
  | Undoing nat               \<comment> \<open>[info] Undoing moves from\<close>
  | UndoLine string path      \<comment> \<open>[undo] name -> parent/\<close>
  | SkipLine path             \<comment> \<open>[skip] Destination missing, cannot undo\<close>
  | UndoComplete nat nat      \<comment> \<open>[done] Undo complete. n restored, m skipped\<close>

text \<open>
  The log directory \<open>~/.desktop-cleaner/logs\<close> maps the time stamp in the name of a
  log file \<open>clean_<stamp>.log\<close> to the \<open>src|dest\<close> lines of the file, in file
  order; the stamp is a number, ordered as the names are.  The directory is kept apart
  from \<open>fs\<close>: the model takes it to lie outside the desktop folder.  A line is held as
  the pair of paths it is written from and parsed to.
\<close>

record desktop = world +
  log_dir :: "(nat \<times> (path \<times> path) list) list"
  stdout :: "line list"

definition print :: "line \<Rightarrow> desktop \<Rightarrow> desktop" where
  "print l s = s\<lparr>stdout := stdout s @ [l]\<rparr>"

definition startswith :: "string \<Rightarrow> string \<Rightarrow> bool" where
  "startswith s pre = (take (length pre) s = pre)"

definition iter_desktop_files :: "filesystem \<Rightarrow> path \<Rightarrow> error + path list" where
  "iter_desktop_files files desktop =
     (case iterdir files desktop of
        Inl e \<Rightarrow> Inl e
      | Inr items \<Rightarrow>
          Inr (filter (\<lambda>item. \<not> is_dir files item \<and> \<not> startswith (name item) ''.'') items))"

definition plan_moves :: "filesystem \<Rightarrow> path \<Rightarrow> error + (path \<times> path) list" where
  "plan_moves files desktop =
     (case iter_desktop_files files desktop of
        Inl e \<Rightarrow> Inl e
      | Inr srcs \<Rightarrow> Inr (map (\<lambda>src. (src, joinpath desktop (classify_file src))) srcs))"

text \<open>
  \<open>write_log\<close>; \<open>now\<close> is the reading of the clock that names the file.  Opening
  the file for writing replaces an older file of the same name.
\<close>

definition write_log ::
  "path \<Rightarrow> (path \<times> path) list \<Rightarrow> nat \<Rightarrow> desktop \<Rightarrow> nat option \<times> desktop" where
  "write_log desktop moves now s =
     (if moves = [] then (None, s)
      else
        (let lines = map (\<lambda>(src, target_dir). (src, joinpath target_dir (name src))) moves
         in (Some now,
             s\<lparr>effects := effects s @ [WroteLog now lines],
               log_dir := AList.update now lines (log_dir s)\<rparr>)))"

definition parse_log :: "desktop \<Rightarrow> nat \<Rightarrow> error + (path \<times> path) list" where
  "parse_log s log_path =
     (case map_of (log_dir s) log_path of
        None \<Rightarrow> Inl FileNotFoundError
      | Some lines \<Rightarrow> Inr lines)"

text \<open>The \<open>for src, dest in moves\<close> loop of \<open>undo_last_run\<close>, with its two counters.\<close>

fun undo_loop ::
  "(path \<times> path) list \<Rightarrow> nat \<Rightarrow> nat \<Rightarrow> desktop \<Rightarrow> (error + nat \<times> nat) \<times> desktop" where
  "undo_loop [] undone skipped s = (Inr (undone, skipped), s)"
| "undo_loop ((src, dest) # rest) undone skipped s =
     (if path_exists (fs s) dest then
        (case mkdir_parents (parent src) s of
           (Inl e, s1) \<Rightarrow> (Inl e, s1)
         | (Inr _, s1) \<Rightarrow>
             (case shutil_move dest src s1 of
                (Inl e, s2) \<Rightarrow> (Inl e, s2)
              | (Inr _, s2) \<Rightarrow>
                  undo_loop rest (undone + 1) skipped
                    (print (UndoLine (name dest) (parent src)) s2)))
      else undo_loop rest undone (skipped + 1) (print (SkipLine dest) s))"

definition undo_last_run :: "desktop \<Rightarrow> (error + unit) \<times> desktop" where
  "undo_last_run s =
     (let logs = sort (map fst (log_dir s)) in
      if logs = [] then (Inr (), print NoLogs s)
      else
        (let last_log = last logs in
         case parse_log s last_log of
           Inl e \<Rightarrow> (Inl e, s)
         | Inr moves \<Rightarrow>
             if moves = [] then (Inr (), print (EmptyLog last_log) s)
             else (case undo_loop moves 0 0 (print (Undoing last_log) s) of
                     (Inl e, s') \<Rightarrow> (Inl e, s')
                   | (Inr (undone, skipped), s') \<Rightarrow>
                       (Inr (), print (UndoComplete undone skipped) s'))))"

text \<open>The two loops of \<open>clean_desktop\<close>: the report of a dry run and the real moves.\<close>

fun dry_run_loop :: "(path \<times> path) list \<Rightarrow> desktop \<Rightarrow> desktop" where
  "dry_run_loop [] s = s"
| "dry_run_loop ((src, target_dir) # rest) s =
     dry_run_loop rest (print (DryRunWouldMove (name src) (name target_dir)) s)"

fun move_loop :: "(path \<times> path) list \<Rightarrow> desktop \<Rightarrow> (error + unit) \<times> desktop" where
  "move_loop [] s = (Inr (), s)"
| "move_loop ((src, target_dir) # rest) s =
     (case mkdir target_dir s of
        (Inl e, s1) \<Rightarrow> (Inl e, s1)
      | (Inr _, s1) \<Rightarrow>
          (let dest = joinpath target_dir (name src) in
           case shutil_move src dest s1 of
             (Inl e, s2) \<Rightarrow> (Inl e, s2)
           | (Inr _, s2) \<Rightarrow>
               move_loop rest (print (MovedLine (name src) (name target_dir)) s2)))"

definition clean_desktop :: "path \<Rightarrow> bool \<Rightarrow> nat \<Rightarrow> desktop \<Rightarrow> (error + nat) \<times> desktop" where
  "clean_desktop desktop dry_run now s =
     (case plan_moves (fs s) desktop of
        Inl e \<Rightarrow> (Inl e, s)
      | Inr moves \<Rightarrow>
          if moves = [] then (Inr 0, print NothingToClean s)
          else if dry_run then
            (Inr (length moves), print (DryRunDone (length moves)) (dry_run_loop moves s))
          else (case move_loop moves s of
                  (Inl e, s1) \<Rightarrow> (Inl e, s1)
                | (Inr _, s1) \<Rightarrow>
                    (let (log_path, s2) = write_log desktop moves now s1;
                         s3 = (case log_path of
                                 Some l \<Rightarrow> print (LogWritten l) s2
                               | None \<Rightarrow> s2)
                     in (Inr (length moves), print (MovedDone (length moves)) s3))))"

section \<open>Example states\<close>

text \<open>A desktop folder with one text file; a stale ledger of each program.\<close>

definition Desktop :: path where
  "Desktop = [''home'', ''Desktop'']"

definition notes_txt :: path where
  "notes_txt = [''home'', ''Desktop'', ''notes.txt'']"

definition moved_txt :: path where
  "moved_txt = [''home'', ''Desktop'', ''Documents'', ''notes.txt'']"

definition stale_cleaner :: cleaner where
  "stale_cleaner =
     FileCleaner Desktop [([''home''], Dir), (Desktop, Dir)] (Stored [(notes_txt, moved_txt)]) True"

definition stale_desktop :: desktop where
  "stale_desktop =
     \<lparr>fs = [([''home''], Dir), (Desktop, Dir)], effects = [],
      log_dir = [(1, [(notes_txt, moved_txt)])], stdout = []\<rparr>"

text \<open>A desktop folder with a dotfile and a subfolder, as each program finds it.\<close>

definition hidden_files :: filesystem where
  "hidden_files =
     [([''home''], Dir), (Desktop, Dir),
      ([''home'', ''Desktop'', ''.hidden''], File ''secret''),
      ([''home'', ''Desktop'', ''Projects''], Dir)]"

definition hidden_cleaner :: cleaner where
  "hidden_cleaner = FileCleaner Desktop hidden_files Missing True"

text \<open>
  Two files already moved into their category folders, with the two records in the
  ledger of each program, the text file recorded first.
\<close>

definition photo_jpg :: path where
  "photo_jpg = [''home'', ''Desktop'', ''photo.JPG'']"

definition moved_jpg :: path where
  "moved_jpg = [''home'', ''Desktop'', ''Images'', ''photo.JPG'']"

definition organized_files :: filesystem where
  "organized_files =
     [([''home''], Dir), (Desktop, Dir),
      ([''home'', ''Desktop'', ''Documents''], Dir), (moved_txt, File ''to do''),
      ([''home'', ''Desktop'', ''Images''], Dir), (moved_jpg, File ''pixels'')]"

definition organized_cleaner :: cleaner where
  "organized_cleaner =
     FileCleaner Desktop organized_files
       (Stored [(notes_txt, moved_txt), (photo_jpg, moved_jpg)]) True"

definition organized_desktop :: desktop where
  "organized_desktop =
     \<lparr>fs = organized_files, effects = [],
      log_dir = [(1, [(notes_txt, moved_txt), (photo_jpg, moved_jpg)])], stdout = []\<rparr>"

text \<open>
  The same ledger after a folder named \<open>photo.JPG\<close> was created where the picture
  had been.
\<close>

definition blocked_cleaner :: cleaner where
  "blocked_cleaner =
     FileCleaner Desktop (organized_files @ [(photo_jpg, Dir)])
       (Stored [(notes_txt, moved_txt), (photo_jpg, moved_jpg)]) True"

text \<open>
  A desktop folder whose text file has a namesake in \<open>Documents\<close> already, and one
  where that namesake is a folder.
\<close>

definition collide_files :: filesystem where
  "collide_files =
     [([''home''], Dir), (Desktop, Dir), (notes_txt, File ''new''), (photo_jpg, File ''pixels''),
      ([''home'', ''Desktop'', ''Documents''], Dir), (moved_txt, File ''old'')]"

definition collide_cleaner :: cleaner where
  "collide_cleaner = FileCleaner Desktop collide_files Missing True"

definition collide_desktop :: desktop where
  "collide_desktop = \<lparr>fs = collide_files, effects = [], log_dir = [], stdout = []\<rparr>"

definition blocked_files :: filesystem where
  "blocked_files =
     [([''home''], Dir), (Desktop, Dir), (notes_txt, File ''new''), (photo_jpg, File ''pixels''),
      ([''home'', ''Desktop'', ''Documents''], Dir), (moved_txt, Dir)]"

definition abort_cleaner :: cleaner where
  "abort_cleaner = FileCleaner Desktop blocked_files Missing True"

text \<open>A desktop folder with two files and nothing organized yet.\<close>

definition plain_files :: filesystem where
  "plain_files =
     [([''home''], Dir), (Desktop, Dir), (notes_txt, File ''to do''), (photo_jpg, File ''pixels'')]"

definition plain_cleaner :: cleaner where
  "plain_cleaner = FileCleaner Desktop plain_files Missing True"

definition plain_desktop :: desktop where
  "plain_desktop = \<lparr>fs = plain_files, effects = [], log_dir = [], stdout = []\<rparr>"

text \<open>
  A desktop folder with one text file to organize and a relic of an earlier run: the
  archive it moved is still in \<open>Archives\<close> and in the history, and a folder now has
  the name the archive had.
\<close>

definition old_zip :: path where
  "old_zip = [''home'', ''Desktop'', ''old.zip'']"

definition moved_zip :: path where
  "moved_zip = [''home'', ''Desktop'', ''Archives'', ''old.zip'']"

definition relic_cleaner :: cleaner where
  "relic_cleaner =
     FileCleaner Desktop
       [([''home''], Dir), (Desktop, Dir), (notes_txt, File ''to do''),
        ([''home'', ''Desktop'', ''Archives''], Dir), (moved_zip, File ''zipped''),
        (old_zip, Dir)]
       (Stored [(old_zip, moved_zip)]) True"

section \<open>Predicates of the claims\<close>

text \<open>
  A logged message, or a printed line, reports the attempt to undo a record when it is
  the message the undo emits for that record, restored or not.
\<close>

definition reports_attempt :: "level \<times> message \<Rightarrow> path \<times> path \<Rightarrow> bool" where
  "reports_attempt lm r = (snd lm = Undone (snd r) (fst r) \<or> snd lm = CannotUndo (snd r))"

definition reports_line :: "line \<Rightarrow> path \<times> path \<Rightarrow> bool" where
  "reports_line l r = (l = UndoLine (name (snd r)) (parent (fst r)) \<or> l = SkipLine (snd r))"

text \<open>
  Durability before the move: going through a list of mutations in the order in which
  they were performed, every move finds its (source, destination) record in the ledger as
  last persisted.  \<open>persisted\<close> is the ledger on disk before the first mutation.  Each
  prefix of the list is a state a crash can leave behind.
\<close>

fun durable_before_move :: "(path \<times> path) list \<Rightarrow> effect list \<Rightarrow> bool" where
  "durable_before_move persisted [] = True"
| "durable_before_move persisted (SavedHistory h # es) = durable_before_move h es"
| "durable_before_move persisted (WroteLog k lines # es) =
     durable_before_move (persisted @ lines) es"
| "durable_before_move persisted (Renamed src dst # es) =
     ((src, dst) \<in> set persisted \<and> durable_before_move persisted es)"
| "durable_before_move persisted (MadeDir p # es) = durable_before_move persisted es"

fun writes_ledger :: "effect \<Rightarrow> bool" where
  "writes_ledger (SavedHistory h) = True"
| "writes_ledger (WroteLog k lines) = True"
| "writes_ledger (Renamed src dst) = False"
| "writes_ledger (MadeDir p) = False"

text \<open>
  No name collision for a file and its category folder: the folder is absent or is a
  folder, and nothing is at the destination of the file.
\<close>

definition no_collision :: "filesystem \<Rightarrow> path \<Rightarrow> path \<Rightarrow> bool" where
  "no_collision f target_dir file_path =
     ((node_at f target_dir = None \<or> node_at f target_dir = Some Dir)
      \<and> node_at f (joinpath target_dir (name file_path)) = None)"

text \<open>
  A state is restored from another up to new folders: same history and settings, and
  every path holds what it held, except that a free path among \<open>T\<close> may now be a folder.
\<close>

definition restored_from :: "path set \<Rightarrow> cleaner \<Rightarrow> cleaner \<Rightarrow> bool" where
  "restored_from T s s2 =
     (history s2 = history s \<and> directory s2 = directory s \<and> mappings s2 = mappings s
      \<and> history_writable s2 = history_writable s
      \<and> (\<forall>q. node_at (fs s2) q = node_at (fs s) q
             \<or> (q \<in> T \<and> node_at (fs s) q = None \<and> node_at (fs s2) q = Some Dir)))"

section \<open>Properties of the categorizers\<close>

lemma lower_char_dot: "lower_char c = CHR ''.'' \<longleftrightarrow> c = CHR ''.''"
  by (simp add: lower_char_def)

lemma rfind_lower: "rfind (CHR ''.'') (lower s) = rfind (CHR ''.'') s"
  by (induction s) (simp_all add: lower_def lower_char_dot Let_def)

lemma lower_simps:
  "length (lower s) = length s" "drop n (lower s) = lower (drop n s)" "lower [] = []"
  by (simp_all add: lower_def drop_map)

lemma suffix_of_name_lower: "suffix_of_name (lower nm) = lower (suffix_of_name nm)"
  by (simp add: suffix_of_name_def rfind_lower lower_simps Let_def)

lemma lower_suffix_cong:
  "lower (name p) = lower (name q) \<Longrightarrow> lower (suffix p) = lower (suffix q)"
  by (simp add: suffix_def suffix_of_name_lower [symmetric])

lemma classify_loop_owner:
  "distinct (concat (map snd t)) \<Longrightarrow> (c, exts) \<in> set t \<Longrightarrow> x \<in> set exts
     \<Longrightarrow> classify_loop t x = c"
  by (induction t x rule: classify_loop.induct) force+

lemma classify_loop_fallback:
  "\<forall>(c, exts) \<in> set t. x \<notin> set exts \<Longrightarrow> classify_loop t x = ''Other''"
  by (induction t x rule: classify_loop.induct) auto

lemma categorize_loop_owner:
  "distinct (concat (map snd t)) \<Longrightarrow> (c, exts) \<in> set t \<Longrightarrow> x \<in> set exts
     \<Longrightarrow> categorize_loop t x = c"
  by (induction t x rule: categorize_loop.induct) force+

lemma categorize_loop_fallback:
  "\<forall>(c, exts) \<in> set t. x \<notin> set exts \<Longrightarrow> categorize_loop t x = ''Others''"
  by (induction t x rule: categorize_loop.induct) auto

lemma CATEGORIES_distinct: "distinct (concat (map snd CATEGORIES))"
  by (simp add: CATEGORIES_def)

lemma CATEGORY_MAPPINGS_distinct: "distinct (concat (map snd CATEGORY_MAPPINGS))"
  by (simp add: CATEGORY_MAPPINGS_def)



section \<open>Facts about the file system\<close>

lemma node_at_root [simp]: "node_at f [] = Some Dir"
  by (simp add: node_at_def)

lemma node_at_update:
  "k \<noteq> [] \<Longrightarrow> node_at (AList.update k v f) q = (if q = k then Some v else node_at f q)"
  by (simp add: node_at_def update_conv')

lemma node_at_delete:
  "k \<noteq> [] \<Longrightarrow> node_at (AList.delete k f) q = (if q = k then None else node_at f q)"
  by (simp add: node_at_def delete_conv')

lemma parent_joinpath [simp]: "parent (joinpath p n) = p"
  by (simp add: parent_def joinpath_def)

lemma name_joinpath [simp]: "name (joinpath p n) = n"
  by (simp add: name_def joinpath_def)

lemma joinpath_not_Nil [simp]: "joinpath p n \<noteq> []"
  by (simp add: joinpath_def)

lemma length_joinpath [simp]: "length (joinpath p n) = Suc (length p)"
  by (simp add: joinpath_def)

lemma child_length: "p \<noteq> [] \<Longrightarrow> length p = Suc (length (parent p))"
  by (simp add: parent_def)

lemma joinpath_parent_name: "p \<noteq> [] \<Longrightarrow> joinpath (parent p) (name p) = p"
  by (simp add: joinpath_def parent_def name_def)

lemma joinpath_neq_self [simp]: "joinpath p n \<noteq> p" "p \<noteq> joinpath p n"
  by (simp_all add: joinpath_def)

lemma joinpath2_neq [simp]:
  "joinpath (joinpath p a) b \<noteq> joinpath p c" "joinpath p c \<noteq> joinpath (joinpath p a) b"
  by (simp_all add: joinpath_def)

lemma joinpath_inject [simp]: "joinpath p a = joinpath q b \<longleftrightarrow> p = q \<and> a = b"
  by (simp add: joinpath_def)

lemma mkdir_exist_ok_new:
  assumes "node_at f t = None" "node_at f (parent t) = Some Dir"
  shows "mkdir_exist_ok f t = Inr (AList.update t Dir f)"
  using assms by (simp add: mkdir_exist_ok_def)

lemma mkdir_exist_ok_old:
  assumes "node_at f t = Some Dir"
  shows "mkdir_exist_ok f t = Inr f"
  using assms by (simp add: mkdir_exist_ok_def)

lemma os_rename_file:
  assumes "node_at f src = Some sn" "sn \<noteq> Dir" "src \<noteq> []" "dst \<noteq> []" "src \<noteq> dst"
    "node_at f (parent dst) = Some Dir" "node_at f dst \<noteq> Some Dir"
  shows "os_rename f src dst = Inr (AList.update dst sn (AList.delete src f))"
  using assms by (simp add: os_rename_def)

section \<open>Facts about the state operations\<close>

lemma mkdir_more [simp]: "world.more (snd (mkdir p s)) = world.more s"
  by (simp add: mkdir_def split: sum.splits)

lemma rename_more [simp]: "world.more (snd (rename a b s)) = world.more s"
  by (simp add: rename_def split: sum.splits)

lemma shutil_move_more [simp]: "world.more (snd (shutil_move a b s)) = world.more s"
  by (simp add: shutil_move_def Let_def)

lemma mkdir_parents_more [simp]: "world.more (snd (mkdir_parents p s)) = world.more s"
proof (induction p s rule: mkdir_parents.induct)
  case (1 p s)
  obtain r s' where m: "mkdir p s = (r, s')" by (cases "mkdir p s")
  have s': "world.more s' = world.more s" using mkdir_more [of p s] m by simp
  show ?case
  proof (cases "r = Inl FileNotFoundError \<and> parent p \<noteq> p")
    case True
    then have ih: "world.more (snd (mkdir_parents (parent p) s')) = world.more s'"
      using 1 m by simp
    obtain r2 s2 where m2: "mkdir_parents (parent p) s' = (r2, s2)"
      by (cases "mkdir_parents (parent p) s'")
    show ?thesis
      using True m m2 ih s' mkdir_more [of p s2]
      by (subst mkdir_parents.simps) (simp split: sum.splits)
  next
    case False
    then show ?thesis using m s'
      by (subst mkdir_parents.simps) (auto split: sum.splits error.splits)
  qed
qed

lemma desktop_more_fields:
  fixes s s' :: desktop
  assumes "world.more s' = world.more s"
  shows "log_dir s' = log_dir s" "stdout s' = stdout s"
  using assms by (cases s; cases s'; simp)+

lemma cleaner_more_fields:
  fixes s s' :: cleaner
  assumes "world.more s' = world.more s"
  shows "history s' = history s" "history_file s' = history_file s"
    "history_writable s' = history_writable s" "logged s' = logged s"
    "directory s' = directory s" "mappings s' = mappings s"
  using assms by (cases s; cases s'; simp)+

lemma mkdir_new:
  assumes "node_at (fs s) t = None" "node_at (fs s) (parent t) = Some Dir"
  shows "mkdir t s = (Inr (), s\<lparr>fs := AList.update t Dir (fs s), effects := effects s @ [MadeDir t]\<rparr>)"
  using assms by (simp add: mkdir_def mkdir_exist_ok_new is_dir_def)

lemma mkdir_old:
  assumes "node_at (fs s) t = Some Dir"
  shows "mkdir t s = (Inr (), s)"
  using assms by (simp add: mkdir_def mkdir_exist_ok_old is_dir_def)

lemma rename_file:
  assumes "node_at (fs s) src = Some sn" "sn \<noteq> Dir" "src \<noteq> []" "dst \<noteq> []" "src \<noteq> dst"
    "node_at (fs s) (parent dst) = Some Dir" "node_at (fs s) dst \<noteq> Some Dir"
  shows "rename src dst s =
    (Inr (), s\<lparr>fs := AList.update dst sn (AList.delete src (fs s)),
               effects := effects s @ [Renamed src dst]\<rparr>)"
  using assms by (simp add: rename_def os_rename_file)

lemma log_fields [simp]:
  "fs (info m s) = fs s" "effects (info m s) = effects s" "history (info m s) = history s"
  "history_file (info m s) = history_file s" "history_writable (info m s) = history_writable s"
  "directory (info m s) = directory s" "mappings (info m s) = mappings s"
  "logged (info m s) = logged s @ [(INFO, m)]"
  "fs (error m s) = fs s" "effects (error m s) = effects s" "history (error m s) = history s"
  "history_file (error m s) = history_file s" "history_writable (error m s) = history_writable s"
  "directory (error m s) = directory s" "mappings (error m s) = mappings s"
  "logged (error m s) = logged s @ [(ERROR, m)]"
  "fs (warning m s) = fs s" "effects (warning m s) = effects s" "history (warning m s) = history s"
  "history_file (warning m s) = history_file s"
  "history_writable (warning m s) = history_writable s"
  "directory (warning m s) = directory s" "mappings (warning m s) = mappings s"
  "logged (warning m s) = logged s @ [(WARNING, m)]"
  by (simp_all add: info_def error_def warning_def)

lemma save_history_fields [simp]:
  "fs (save_history s) = fs s" "history (save_history s) = history s"
  "history_writable (save_history s) = history_writable s"
  "directory (save_history s) = directory s" "mappings (save_history s) = mappings s"
  "history_file (save_history s) = (if history_writable s then Stored (history s) else history_file s)"
  "effects (save_history s) = effects s @ (if history_writable s then [SavedHistory (history s)] else [])"
  "logged (save_history s) = logged s @ (if history_writable s then [] else [(ERROR, SaveFailed)])"
  by (simp_all add: save_history_def)

lemma record_move_fields [simp]:
  "fs (record_move a b s) = fs s" "history (record_move a b s) = history s @ [(a, b)]"
  "history_writable (record_move a b s) = history_writable s"
  "directory (record_move a b s) = directory s" "mappings (record_move a b s) = mappings s"
  "history_file (record_move a b s) =
     (if history_writable s then Stored (history s @ [(a, b)]) else history_file s)"
  "effects (record_move a b s) =
     effects s @ (if history_writable s then [SavedHistory (history s @ [(a, b)])] else [])"
  "logged (record_move a b s) = logged s @ (if history_writable s then [] else [(ERROR, SaveFailed)])"
  by (simp_all add: record_move_def)

lemma print_fields [simp]:
  "fs (print l s) = fs s" "effects (print l s) = effects s" "log_dir (print l s) = log_dir s"
  "stdout (print l s) = stdout s @ [l]"
  by (simp_all add: print_def)

lemma move_file_ok:
  assumes isfile: "node_at (fs s) p = Some (File c)" and p: "p \<noteq> []" "p \<noteq> t"
    and tne: "t \<noteq> []"
    and t: "node_at (fs s) t = Some Dir
            \<or> node_at (fs s) t = None \<and> node_at (fs s) (parent t) = Some Dir"
    and free: "node_at (fs s) (joinpath t (name p)) \<noteq> Some Dir" "p \<noteq> joinpath t (name p)"
  shows "fst (move_file p t s) = Inr ()"
    and "history (snd (move_file p t s)) = history s @ [(p, joinpath t (name p))]"
    and "node_at (fs (snd (move_file p t s))) q =
          (if q = joinpath t (name p) then Some (File c)
           else if q = p then None
           else if q = t then Some Dir
           else node_at (fs s) q)"
    and "history_writable (snd (move_file p t s)) = history_writable s"
    and "directory (snd (move_file p t s)) = directory s"
    and "mappings (snd (move_file p t s)) = mappings s"
    and "logged (snd (move_file p t s)) =
          logged s @ (if history_writable s then [] else [(ERROR, SaveFailed)])
            @ [(INFO, Moved (name p) (name t))]"
proof -
  let ?dest = "joinpath t (name p)"
  obtain s1 where m1: "mkdir t s = (Inr (), s1)"
    and n1: "\<And>q. node_at (fs s1) q = (if q = t then Some Dir else node_at (fs s) q)"
    and c1: "history s1 = history s" "history_writable s1 = history_writable s"
      "directory s1 = directory s" "mappings s1 = mappings s" "logged s1 = logged s"
  proof (cases "node_at (fs s) t = None")
    case True
    with t have dir: "node_at (fs s) (parent t) = Some Dir" by simp
    show ?thesis
      by (rule that [OF mkdir_new [OF True dir]]) (simp_all add: node_at_update tne)
  next
    case False
    with t have d: "node_at (fs s) t = Some Dir" by simp
    show ?thesis
      by (rule that [OF mkdir_old [OF d]]) (simp_all add: d)
  qed
  let ?s2 = "record_move p ?dest s1"
  have pd: "p \<noteq> ?dest"
    using free by simp
  have r: "rename p ?dest ?s2 =
    (Inr (), ?s2\<lparr>fs := AList.update ?dest (File c) (AList.delete p (fs ?s2)),
               effects := effects ?s2 @ [Renamed p ?dest]\<rparr>)"
    by (rule rename_file) (use isfile p free pd in \<open>simp_all add: n1\<close>)
  have mf: "move_file p t s =
     (Inr (), info (Moved (name p) (name t))
        (?s2\<lparr>fs := AList.update ?dest (File c) (AList.delete p (fs ?s2)),
               effects := effects ?s2 @ [Renamed p ?dest]\<rparr>))"
    by (simp add: move_file_def m1 r Let_def)
  show "fst (move_file p t s) = Inr ()" by (simp add: mf)
  show "history (snd (move_file p t s)) = history s @ [(p, ?dest)]" by (simp add: mf c1)
  show "node_at (fs (snd (move_file p t s))) q =
          (if q = ?dest then Some (File c) else if q = p then None
           else if q = t then Some Dir else node_at (fs s) q)"
    using p by (simp add: mf node_at_update node_at_delete n1)
  show "history_writable (snd (move_file p t s)) = history_writable s" by (simp add: mf c1)
  show "directory (snd (move_file p t s)) = directory s" by (simp add: mf c1)
  show "mappings (snd (move_file p t s)) = mappings s" by (simp add: mf c1)
  show "logged (snd (move_file p t s)) =
          logged s @ (if history_writable s then [] else [(ERROR, SaveFailed)])
            @ [(INFO, Moved (name p) (name t))]"
    by (simp add: mf c1)
qed


lemma undo_last_ok:
  assumes h: "history s = h @ [(p, dest)]"
    and d: "node_at (fs s) dest = Some sn" "sn \<noteq> Dir" "dest \<noteq> []" "dest \<noteq> p"
    and p: "p \<noteq> []" "node_at (fs s) (parent p) = Some Dir" "node_at (fs s) p \<noteq> Some Dir"
  shows "fst (undo_last s) = Inr True"
    and "history (snd (undo_last s)) = h"
    and "node_at (fs (snd (undo_last s))) q =
          (if q = p then Some sn else if q = dest then None else node_at (fs s) q)"
    and "history_writable (snd (undo_last s)) = history_writable s"
    and "directory (snd (undo_last s)) = directory s"
    and "mappings (snd (undo_last s)) = mappings s"
    and "history_file (snd (undo_last s)) =
          (if history_writable s then Stored h else history_file s)"
proof -
  let ?s1 = "s\<lparr>history := butlast (history s)\<rparr>"
  have r: "rename dest p ?s1 =
    (Inr (), ?s1\<lparr>fs := AList.update p sn (AList.delete dest (fs ?s1)),
               effects := effects ?s1 @ [Renamed dest p]\<rparr>)"
    by (rule rename_file) (use d p in simp_all)
  have ex: "path_exists (fs s) dest" using d by (simp add: path_exists_def)
  have u: "undo_last s =
    (Inr True, save_history (info (Undone dest p)
       (?s1\<lparr>fs := AList.update p sn (AList.delete dest (fs ?s1)),
               effects := effects ?s1 @ [Renamed dest p]\<rparr>)))"
    using h ex r by (simp add: undo_last_def Let_def)
  show "fst (undo_last s) = Inr True" by (simp add: u)
  show "history (snd (undo_last s)) = h" by (simp add: u h)
  show "node_at (fs (snd (undo_last s))) q =
          (if q = p then Some sn else if q = dest then None else node_at (fs s) q)"
    using d p by (simp add: u node_at_update node_at_delete)
  show "history_writable (snd (undo_last s)) = history_writable s" by (simp add: u)
  show "directory (snd (undo_last s)) = directory s" by (simp add: u)
  show "mappings (snd (undo_last s)) = mappings s" by (simp add: u)
  show "history_file (snd (undo_last s)) =
          (if history_writable s then Stored h else history_file s)"
    by (simp add: u h)
qed

lemma undo_last_pops:
  "history s \<noteq> [] \<Longrightarrow> history (snd (undo_last s)) = butlast (history s)"
proof -
  assume ne: "history s \<noteq> []"
  obtain p dest where l: "last (history s) = (p, dest)" by (cases "last (history s)")
  let ?s1 = "s\<lparr>history := butlast (history s)\<rparr>"
  obtain r s2 where rn: "rename dest p ?s1 = (r, s2)" by (cases "rename dest p ?s1")
  have "world.more s2 = world.more ?s1" using rename_more [of dest p ?s1] rn by simp
  then have "history s2 = history ?s1" by (rule cleaner_more_fields)
  then show ?thesis
    using ne l rn by (cases r) (simp_all add: undo_last_def Let_def)
qed

lemma undo_last_consts:
  "history_writable (snd (undo_last s)) = history_writable s"
  "directory (snd (undo_last s)) = directory s"
  "mappings (snd (undo_last s)) = mappings s"
proof -
  obtain p dest where l: "last (history s) = (p, dest)" by (cases "last (history s)")
  let ?s1 = "s\<lparr>history := butlast (history s)\<rparr>"
  obtain r s2 where rn: "rename dest p ?s1 = (r, s2)" by (cases "rename dest p ?s1")
  have m: "world.more s2 = world.more ?s1" using rename_more [of dest p ?s1] rn by simp
  have c: "history_writable s2 = history_writable ?s1" "directory s2 = directory ?s1"
    "mappings s2 = mappings ?s1"
    by (rule cleaner_more_fields [OF m])+
  show "history_writable (snd (undo_last s)) = history_writable s"
    using l rn c by (cases r) (simp_all add: undo_last_def Let_def)
  show "directory (snd (undo_last s)) = directory s"
    using l rn c by (cases r) (simp_all add: undo_last_def Let_def)
  show "mappings (snd (undo_last s)) = mappings s"
    using l rn c by (cases r) (simp_all add: undo_last_def Let_def)
qed

lemma undo_all_step:
  assumes "history s \<noteq> []" "fst (undo_last s) = Inr b"
  shows "undo_all s = undo_all (snd (undo_last s))"
proof -
  obtain s' where "undo_last s = (Inr b, s')"
    using assms(2) by (cases "undo_last s") simp
  with assms(1) show ?thesis by (subst undo_all.simps) simp
qed

lemma undo_all_empty: "history s = [] \<Longrightarrow> undo_all s = (Inr (), s)"
  by (subst undo_all.simps) simp

lemma undo_loop_log_dir: "log_dir (snd (undo_loop moves u k s)) = log_dir s"
proof (induction moves arbitrary: u k s)
  case Nil
  show ?case by simp
next
  case (Cons m rest)
  obtain src dest where m: "m = (src, dest)" by (cases m)
  obtain r1 s1 where m1: "mkdir_parents (parent src) s = (r1, s1)"
    by (cases "mkdir_parents (parent src) s")
  obtain r2 s2 where m2: "shutil_move dest src s1 = (r2, s2)"
    by (cases "shutil_move dest src s1")
  have l1: "log_dir s1 = log_dir s"
    using mkdir_parents_more [of "parent src" s] m1 by (intro desktop_more_fields) simp
  have l2: "log_dir s2 = log_dir s1"
    using shutil_move_more [of dest src s1] m2 by (intro desktop_more_fields) simp
  show ?case
    using m m1 m2 l1 l2 by (cases r1; cases r2) (simp_all add: Cons.IH)
qed

lemma undo_last_run_log_dir: "log_dir (snd (undo_last_run s)) = log_dir s"
proof -
  let ?k = "last (sort (map fst (log_dir s)))"
  show ?thesis
  proof (cases "parse_log s ?k")
    case (Inl e)
    then show ?thesis by (simp add: undo_last_run_def Let_def)
  next
    case (Inr moves)
    obtain r s' where u: "undo_loop moves 0 0 (print (Undoing ?k) s) = (r, s')"
      by (cases "undo_loop moves 0 0 (print (Undoing ?k) s)")
    have "log_dir s' = log_dir s"
      using undo_loop_log_dir [of moves 0 0 "print (Undoing ?k) s"] u by simp
    with Inr u show ?thesis
      by (cases r) (simp_all add: undo_last_run_def Let_def split: prod.splits)
  qed
qed

text \<open>
  Claim C9 (amended).  At start-up a missing history file gives an empty history and no
  log message at all; an unreadable one gives an empty history and one message at level
  ERROR.  Neither raises, and neither touches the file system or the file.
\<close>

theorem load_history_recovery:
  "history (FileCleaner dir files Missing w) = []
   \<and> logged (FileCleaner dir files Missing w) = []
   \<and> history_file (FileCleaner dir files Missing w) = Missing
   \<and> history (FileCleaner dir files Corrupt w) = []
   \<and> logged (FileCleaner dir files Corrupt w) = [(ERROR, LoadFailed)]
   \<and> history_file (FileCleaner dir files Corrupt w) = Corrupt
   \<and> fs (FileCleaner dir files h w) = files
   \<and> effects (FileCleaner dir files h w) = []"
  by (simp add: FileCleaner_def load_history_def split: stored.splits)

text \<open>Claim C9 as stated fails: no warning is logged for a missing file.\<close>

theorem load_history_counterexample:
  "logged (FileCleaner Desktop [] Missing True) = []
   \<and> logged (FileCleaner Desktop [] Corrupt True) = [(ERROR, LoadFailed)]"
  by (simp add: FileCleaner_def load_history_def)

text \<open>
  Claim C7 (amended).  When the destination of the most recent record does not exist,
  \<open>undo_last\<close> returns \<open>False\<close> without raising, pops the record, leaves the file
  system alone and, if the history file can be written, saves the shortened history; a
  one-record history becomes empty.  \<open>undo_last_run\<close> of desktop_cleaner.py counts
  such a record as skipped and goes on, and never changes any log file.
\<close>

theorem stale_undo:
  assumes "history s \<noteq> []" and "\<not> path_exists (fs s) (snd (last (history s)))"
  shows "fst (undo_last s) = Inr False
    \<and> history (snd (undo_last s)) = butlast (history s)
    \<and> fs (snd (undo_last s)) = fs s
    \<and> (history_writable s \<longrightarrow> history_file (snd (undo_last s)) = Stored (butlast (history s)))
    \<and> (length (history s) = 1 \<longrightarrow> history (snd (undo_last s)) = [])
    \<and> (\<not> path_exists (fs d) dest \<longrightarrow>
          undo_loop ((src, dest) # rest) undone skipped d =
          undo_loop rest undone (skipped + 1) (print (SkipLine dest) d))
    \<and> log_dir (snd (undo_last_run d)) = log_dir d"
proof -
  have u: "undo_last s =
     (Inr False, save_history (error (CannotUndo (snd (last (history s))))
        (s\<lparr>history := butlast (history s)\<rparr>)))"
    using assms by (auto simp: undo_last_def Let_def split: prod.splits)
  have "length (history s) = 1 \<longrightarrow> butlast (history s) = []"
    by (cases "history s") simp_all
  then show ?thesis
    by (simp add: u undo_last_run_log_dir)
qed

theorem stale_undo_witness:
  "history stale_cleaner \<noteq> []
   \<and> \<not> path_exists (fs stale_cleaner) (snd (last (history stale_cleaner)))
   \<and> fst (undo_last stale_cleaner) = Inr False
   \<and> history (snd (undo_last stale_cleaner)) = []
   \<and> history_file (snd (undo_last stale_cleaner)) = Stored []"
proof -
  have h: "history stale_cleaner = [(notes_txt, moved_txt)]"
    by (simp add: stale_cleaner_def FileCleaner_def load_history_def)
  have f: "fs stale_cleaner = [([''home''], Dir), (Desktop, Dir)]"
    by (simp add: stale_cleaner_def FileCleaner_def load_history_def)
  have w: "history_writable stale_cleaner"
    by (simp add: stale_cleaner_def FileCleaner_def load_history_def)
  have a: "history stale_cleaner \<noteq> []" by (simp add: h)
  have b: "\<not> path_exists (fs stale_cleaner) (snd (last (history stale_cleaner)))"
    by (simp add: h f path_exists_def node_at_def moved_txt_def Desktop_def)
  from stale_undo [OF a b] a b w h show ?thesis by simp
qed

text \<open>
  Claim C7 as stated fails for \<open>undo_last_run\<close>: the record whose destination is gone
  is still in the log after the undo.
\<close>

theorem stale_undo_counterexample:
  "\<not> path_exists (fs stale_desktop) moved_txt
   \<and> fst (undo_last_run stale_desktop) = Inr ()
   \<and> stdout (snd (undo_last_run stale_desktop)) = [Undoing 1, SkipLine moved_txt, UndoComplete 0 1]
   \<and> parse_log (snd (undo_last_run stale_desktop)) 1 = Inr [(notes_txt, moved_txt)]"
  by (simp add: stale_desktop_def undo_last_run_def parse_log_def path_exists_def node_at_def
      moved_txt_def Desktop_def print_def)

section \<open>Dry runs\<close>

lemma dry_run_loop_eq:
  "dry_run_loop moves s =
     s\<lparr>stdout := stdout s @ map (\<lambda>(src, t). DryRunWouldMove (name src) (name t)) moves\<rparr>"
  by (induction moves arbitrary: s) (auto simp: print_def)

lemma clean_desktop_dry:
  "snd (clean_desktop desktop True now s) =
     s\<lparr>stdout := stdout s @
        (case plan_moves (fs s) desktop of
           Inl e \<Rightarrow> []
         | Inr moves \<Rightarrow>
             if moves = [] then [NothingToClean]
             else map (\<lambda>(src, t). DryRunWouldMove (name src) (name t)) moves
                  @ [DryRunDone (length moves)])\<rparr>"
  by (simp add: clean_desktop_def dry_run_loop_eq print_def split: sum.splits)

lemma clean_desktop_dry_result:
  "fst (clean_desktop desktop True now s) =
     (case plan_moves (fs s) desktop of Inl e \<Rightarrow> Inl e | Inr moves \<Rightarrow> Inr (length moves))"
  by (simp add: clean_desktop_def split: sum.splits)

lemma organize_loop_dry:
  "organize_loop True ps s =
     (Inr (), s\<lparr>logged := logged s @
        map (\<lambda>p. (INFO, WouldMove (name p) (categorize (mappings s) p)))
          (filter (is_file (fs s)) ps)\<rparr>)"
  by (induction ps arbitrary: s) (simp_all add: Let_def info_def)

lemma organize_dry:
  "snd (organize True s) =
     s\<lparr>logged := logged s @ (INFO, Organizing (directory s)) #
        (case iterdir (fs s) (directory s) of
           Inl e \<Rightarrow> []
         | Inr children \<Rightarrow>
             map (\<lambda>p. (INFO, WouldMove (name p) (categorize (mappings s) p)))
               (filter (is_file (fs s)) children))\<rparr>"
  by (simp add: organize_def organize_loop_dry Let_def info_def split: sum.splits)

lemma iterate_stdout:
  "((\<lambda>s. s\<lparr>stdout := stdout s @ R (fs s)\<rparr>) ^^ n) s =
     s\<lparr>stdout := stdout s @ concat (replicate n (R (fs s)))\<rparr>"
proof (induction n)
  case 0
  show ?case by simp
next
  case (Suc n)
  have "concat (replicate n (R (fs s))) @ R (fs s) = R (fs s) @ concat (replicate n (R (fs s)))"
    by (induction n) simp_all
  with Suc show ?case by simp
qed

lemma iterate_logged:
  "((\<lambda>s. s\<lparr>logged := logged s @ R (fs s) (directory s) (mappings s)\<rparr>) ^^ n) s =
     s\<lparr>logged := logged s @ concat (replicate n (R (fs s) (directory s) (mappings s)))\<rparr>"
proof (induction n)
  case 0
  show ?case by simp
next
  case (Suc n)
  let ?r = "R (fs s) (directory s) (mappings s)"
  have "concat (replicate n ?r) @ ?r = ?r @ concat (replicate n ?r)"
    by (induction n) simp_all
  with Suc show ?case by simp
qed

text \<open>
  Claim C6.  A dry run of either program leaves the file system, the list of mutations
  and the ledger (log directory; history and history file) as they were, whatever the
  outcome, and only prints.  Run \<open>n\<close> times in a row it prints the same report \<open>n\<close>
  times and returns the same result each time.
\<close>

theorem dry_run_frame:
  "\<exists>report kreport. \<forall>n.
     fs (((\<lambda>s. snd (clean_desktop desktop True now s)) ^^ n) d) = fs d
   \<and> effects (((\<lambda>s. snd (clean_desktop desktop True now s)) ^^ n) d) = effects d
   \<and> log_dir (((\<lambda>s. snd (clean_desktop desktop True now s)) ^^ n) d) = log_dir d
   \<and> stdout (((\<lambda>s. snd (clean_desktop desktop True now s)) ^^ n) d)
       = stdout d @ concat (replicate n report)
   \<and> fst (clean_desktop desktop True now (((\<lambda>s. snd (clean_desktop desktop True now s)) ^^ n) d))
       = fst (clean_desktop desktop True now d)
   \<and> fs (((\<lambda>s. snd (organize True s)) ^^ n) k) = fs k
   \<and> effects (((\<lambda>s. snd (organize True s)) ^^ n) k) = effects k
   \<and> history (((\<lambda>s. snd (organize True s)) ^^ n) k) = history k
   \<and> history_file (((\<lambda>s. snd (organize True s)) ^^ n) k) = history_file k
   \<and> logged (((\<lambda>s. snd (organize True s)) ^^ n) k) = logged k @ concat (replicate n kreport)
   \<and> fst (organize True (((\<lambda>s. snd (organize True s)) ^^ n) k)) = fst (organize True k)"
proof -
  let ?R = "\<lambda>f. case plan_moves f desktop of
           Inl e \<Rightarrow> []
         | Inr moves \<Rightarrow>
             if moves = [] then [NothingToClean]
             else map (\<lambda>(src, t). DryRunWouldMove (name src) (name t)) moves
                  @ [DryRunDone (length moves)]"
  let ?K = "\<lambda>f dir m. (INFO, Organizing dir) #
        (case iterdir f dir of
           Inl e \<Rightarrow> []
         | Inr children \<Rightarrow>
             map (\<lambda>p. (INFO, WouldMove (name p) (categorize m p))) (filter (is_file f) children))"
  have d: "((\<lambda>s. snd (clean_desktop desktop True now s)) ^^ n) d =
      d\<lparr>stdout := stdout d @ concat (replicate n (?R (fs d)))\<rparr>" for n
    using iterate_stdout [where R = ?R and n = n and s = d] by (simp add: clean_desktop_dry)
  have k: "((\<lambda>s. snd (organize True s)) ^^ n) k =
      k\<lparr>logged := logged k @ concat (replicate n (?K (fs k) (directory k) (mappings k)))\<rparr>" for n
    using iterate_logged [where R = ?K and n = n and s = k] by (simp add: organize_dry)
  have ko: "fst (organize True (k\<lparr>logged := l\<rparr>)) = fst (organize True k)" for l
    by (simp add: organize_def organize_loop_dry Let_def split: sum.splits)
  show ?thesis
    apply (rule exI [of _ "?R (fs d)"])
    apply (rule exI [of _ "?K (fs k) (directory k) (mappings k)"])
    apply (rule allI)
    apply (simp only: d k ko)
    apply (simp add: clean_desktop_dry_result)
    done
qed

section \<open>What is planned\<close>

lemma iterdir_children:
  "iterdir f d = Inr children \<Longrightarrow>
     children = filter (\<lambda>p. p \<noteq> [] \<and> parent p = d) (map fst f)"
  by (auto simp: iterdir_def split: option.splits node.splits)




section \<open>The order of undoing\<close>

lemma undo_last_cases:
  assumes h: "history s = h @ [(src, dest)]"
  obtains
    (stale) "\<not> path_exists (fs s) dest"
      "undo_last s = (Inr False, save_history (error (CannotUndo dest) (s\<lparr>history := h\<rparr>)))"
  | (raised) e where "path_exists (fs s) dest" "os_rename (fs s) dest src = Inl e"
      "undo_last s = (Inl e, s\<lparr>history := h\<rparr>)"
  | (undone) f where "path_exists (fs s) dest" "os_rename (fs s) dest src = Inr f"
      "undo_last s = (Inr True, save_history (info (Undone dest src)
          (s\<lparr>history := h, fs := f, effects := effects s @ [Renamed dest src]\<rparr>)))"
proof (cases "path_exists (fs s) dest")
  case False
  with h show ?thesis by (intro stale) (simp_all add: undo_last_def)
next
  case True
  show ?thesis
  proof (cases "os_rename (fs s) dest src")
    case (Inl e)
    with True h show ?thesis by (intro raised [of e]) (simp_all add: undo_last_def rename_def)
  next
    case (Inr f)
    with True h show ?thesis by (intro undone [of f]) (simp_all add: undo_last_def rename_def)
  qed
qed

lemma undo_all_raised:
  assumes "history s \<noteq> []" "undo_last s = (Inl e, s')"
  shows "undo_all s = (Inl e, s')"
  using assms by (subst undo_all.simps) simp

lemma undo_all_next:
  assumes "history s \<noteq> []" "undo_last s = (Inr b, s')"
  shows "undo_all s = undo_all s'"
  using assms by (subst undo_all.simps) simp

lemma undo_all_order:
  "\<exists>n xs. logged (snd (undo_all s)) = logged s @ xs
     \<and> list_all2 reports_attempt (filter (\<lambda>lm. snd lm \<noteq> SaveFailed) xs)
         (take n (rev (history s)))
     \<and> (fst (undo_all s) = Inr () \<longrightarrow> n = length (history s))"
proof (induction "length (history s)" arbitrary: s)
  case 0
  then show ?case by (simp add: undo_all_empty)
next
  case (Suc m)
  then obtain h src dest where h: "history s = h @ [(src, dest)]"
    by (cases "history s" rule: rev_cases) auto
  then have ne: "history s \<noteq> []" by simp
  have step: ?case
    if u: "undo_last s = (Inr b, s1)" and hs: "history s1 = h"
      and l: "logged s1 = logged s @ x # ys" and x: "reports_attempt x (src, dest)"
      and ys: "filter (\<lambda>lm. snd lm \<noteq> SaveFailed) ys = []" for b s1 x ys
  proof -
    have "m = length (history s1)" using Suc(2) h hs by simp
    from Suc(1) [OF this] obtain n xs where
      ih: "logged (snd (undo_all s1)) = logged s1 @ xs"
        "list_all2 reports_attempt (filter (\<lambda>lm. snd lm \<noteq> SaveFailed) xs) (take n (rev h))"
        "fst (undo_all s1) = Inr () \<longrightarrow> n = length h"
      using hs by auto
    have xs: "snd x \<noteq> SaveFailed" using x by (auto simp: reports_attempt_def)
    have "logged (snd (undo_all s)) = logged s @ (x # ys @ xs)"
      using undo_all_next [OF ne u] ih(1) l by simp
    moreover have "list_all2 reports_attempt
        (filter (\<lambda>lm. snd lm \<noteq> SaveFailed) (x # ys @ xs)) (take (Suc n) (rev (history s)))"
      using ih(2) x xs ys by (simp add: h)
    moreover have "fst (undo_all s) = Inr () \<longrightarrow> Suc n = length (history s)"
      using undo_all_next [OF ne u] ih(3) by (simp add: h)
    ultimately show ?thesis by blast
  qed
  from h show ?case
  proof (cases rule: undo_last_cases)
    case stale
    show ?thesis
      by (rule step [OF stale(2), of "(ERROR, CannotUndo dest)"
            "if history_writable s then [] else [(ERROR, SaveFailed)]"])
         (simp_all add: reports_attempt_def)
  next
    case (raised e)
    have "undo_all s = (Inl e, s\<lparr>history := h\<rparr>)"
      by (rule undo_all_raised [OF ne raised(3)])
    then have "logged (snd (undo_all s)) = logged s @ []"
      "list_all2 reports_attempt (filter (\<lambda>lm. snd lm \<noteq> SaveFailed) []) (take 0 (rev (history s)))"
      "fst (undo_all s) = Inr () \<longrightarrow> 0 = length (history s)"
      by simp_all
    then show ?thesis by blast
  next
    case (undone f)
    show ?thesis
      by (rule step [OF undone(3), of "(INFO, Undone dest src)"
            "if history_writable s then [] else [(ERROR, SaveFailed)]"])
         (simp_all add: reports_attempt_def)
  qed
qed

lemma undo_loop_order:
  "\<exists>n xs. stdout (snd (undo_loop moves u k d)) = stdout d @ xs
     \<and> list_all2 reports_line xs (take n moves)
     \<and> ((\<exists>c. fst (undo_loop moves u k d) = Inr c) \<longrightarrow> n = length moves)"
proof (induction moves arbitrary: u k d)
  case Nil
  show ?case by simp
next
  case (Cons m rest)
  obtain src dest where m: "m = (src, dest)" by (cases m)
  have step: ?case
    if u: "undo_loop (m # rest) u k d = undo_loop rest u' k' (print x d1)"
      and d1: "stdout d1 = stdout d" and x: "reports_line x m" for u' k' x d1
  proof -
    from Cons.IH [of u' k' "print x d1"] obtain n xs where
      ih: "stdout (snd (undo_loop rest u' k' (print x d1))) = stdout (print x d1) @ xs"
        "list_all2 reports_line xs (take n rest)"
        "(\<exists>c. fst (undo_loop rest u' k' (print x d1)) = Inr c) \<longrightarrow> n = length rest"
      by blast
    have "stdout (snd (undo_loop (m # rest) u k d)) = stdout d @ (x # xs)"
      using ih(1) d1 by (simp add: u)
    moreover have "list_all2 reports_line (x # xs) (take (Suc n) (m # rest))"
      using ih(2) x by simp
    moreover have "(\<exists>c. fst (undo_loop (m # rest) u k d) = Inr c) \<longrightarrow> Suc n = length (m # rest)"
      using ih(3) by (simp add: u)
    ultimately show ?thesis by blast
  qed
  have stop: ?case if u: "undo_loop (m # rest) u k d = (Inl e, d1)"
      and d1: "stdout d1 = stdout d" for e d1
  proof -
    have "stdout (snd (undo_loop (m # rest) u k d)) = stdout d @ []"
      "list_all2 reports_line [] (take 0 (m # rest))"
      "(\<exists>c. fst (undo_loop (m # rest) u k d) = Inr c) \<longrightarrow> 0 = length (m # rest)"
      using d1 by (simp_all add: u)
    then show ?thesis by blast
  qed
  obtain r1 s1 where m1: "mkdir_parents (parent src) d = (r1, s1)"
    by (cases "mkdir_parents (parent src) d")
  obtain r2 s2 where m2: "shutil_move dest src s1 = (r2, s2)"
    by (cases "shutil_move dest src s1")
  have l1: "stdout s1 = stdout d"
    using mkdir_parents_more [of "parent src" d] m1 by (intro desktop_more_fields) simp
  have l2: "stdout s2 = stdout s1"
    using shutil_move_more [of dest src s1] m2 by (intro desktop_more_fields) simp
  show ?case
  proof (cases "path_exists (fs d) dest")
    case False
    show ?thesis
      by (rule step [of u "k + 1" "SkipLine dest" d])
         (simp_all add: m False reports_line_def)
  next
    case True
    show ?thesis
    proof (cases r1)
      case (Inl e)
      show ?thesis by (rule stop [of e s1]) (simp_all add: m True m1 Inl l1)
    next
      case (Inr x1)
      note r1 = this
      show ?thesis
      proof (cases r2)
        case (Inl e)
        show ?thesis by (rule stop [of e s2]) (simp_all add: m True m1 m2 r1 Inl l1 l2)
      next
        case (Inr x2)
        show ?thesis
          by (rule step [of "u + 1" k "UndoLine (name dest) (parent src)" s2])
             (simp_all add: m True m1 m2 r1 Inr l1 l2 reports_line_def)
      qed
    qed
  qed
qed

text \<open>
  Claim C3 (amended).  \<open>UndoManager.undo_all\<close> attempts the records most recent
  first: apart from the messages of a failed save, what it logs is one message per
  attempted record, following the reversed history, all of it when no rename raises; and
  the message of \<open>undo_last\<close> is about the last record.  The loop of \<open>undo_last_run\<close>
  in desktop_cleaner.py attempts the records of the log in file order, oldest first.
\<close>

theorem undo_order:
  "(\<exists>n xs. logged (snd (undo_all s)) = logged s @ xs
       \<and> list_all2 reports_attempt (filter (\<lambda>lm. snd lm \<noteq> SaveFailed) xs)
           (take n (rev (history s)))
       \<and> (fst (undo_all s) = Inr () \<longrightarrow> n = length (history s)))
   \<and> (history s \<noteq> [] \<and> (\<exists>b. fst (undo_last s) = Inr b) \<longrightarrow>
         reports_attempt (logged (snd (undo_last s)) ! length (logged s)) (last (history s)))
   \<and> (\<exists>n xs. stdout (snd (undo_loop moves undone skipped d)) = stdout d @ xs
       \<and> list_all2 reports_line xs (take n moves)
       \<and> ((\<exists>c. fst (undo_loop moves undone skipped d) = Inr c) \<longrightarrow> n = length moves))"
proof (intro conjI impI)
  show "\<exists>n xs. logged (snd (undo_all s)) = logged s @ xs
       \<and> list_all2 reports_attempt (filter (\<lambda>lm. snd lm \<noteq> SaveFailed) xs)
           (take n (rev (history s)))
       \<and> (fst (undo_all s) = Inr () \<longrightarrow> n = length (history s))"
    by (rule undo_all_order)
  show "\<exists>n xs. stdout (snd (undo_loop moves undone skipped d)) = stdout d @ xs
       \<and> list_all2 reports_line xs (take n moves)
       \<and> ((\<exists>c. fst (undo_loop moves undone skipped d) = Inr c) \<longrightarrow> n = length moves)"
    by (rule undo_loop_order)
next
  assume a: "history s \<noteq> [] \<and> (\<exists>b. fst (undo_last s) = Inr b)"
  then obtain h src dest where h: "history s = h @ [(src, dest)]"
    by (cases "history s" rule: rev_cases) auto
  from h show "reports_attempt (logged (snd (undo_last s)) ! length (logged s)) (last (history s))"
  proof (cases rule: undo_last_cases)
    case stale
    then show ?thesis by (simp add: h reports_attempt_def nth_append)
  next
    case (raised e)
    with a show ?thesis by simp
  next
    case (undone f)
    then show ?thesis by (simp add: h reports_attempt_def nth_append)
  qed
qed

theorem undo_order_witness:
  "fst (undo_all organized_cleaner) = Inr ()
   \<and> history organized_cleaner = [(notes_txt, moved_txt), (photo_jpg, moved_jpg)]
   \<and> (\<exists>xs. logged (snd (undo_all organized_cleaner)) = logged organized_cleaner @ xs
        \<and> list_all2 reports_attempt (filter (\<lambda>lm. snd lm \<noteq> SaveFailed) xs)
            [(photo_jpg, moved_jpg), (notes_txt, moved_txt)])
   \<and> fst (undo_last organized_cleaner) = Inr True
   \<and> reports_attempt (logged (snd (undo_last organized_cleaner)) ! length (logged organized_cleaner))
        (photo_jpg, moved_jpg)
   \<and> fst (undo_loop [(notes_txt, moved_txt), (photo_jpg, moved_jpg)] 0 0 organized_desktop)
        = Inr (2, 0)
   \<and> (\<exists>xs. stdout (snd (undo_loop [(notes_txt, moved_txt), (photo_jpg, moved_jpg)] 0 0
                 organized_desktop)) = stdout organized_desktop @ xs
        \<and> list_all2 reports_line xs [(notes_txt, moved_txt), (photo_jpg, moved_jpg)])"
proof -
  let ?moves = "[(notes_txt, moved_txt), (photo_jpg, moved_jpg)]"
  note t = undo_order [of organized_cleaner ?moves 0 0 organized_desktop]
  have a: "fst (undo_all organized_cleaner) = Inr ()" by code_simp
  have h: "history organized_cleaner = ?moves" by code_simp
  have b: "fst (undo_last organized_cleaner) = Inr True" by code_simp
  have e: "fst (undo_loop ?moves 0 0 organized_desktop) = Inr (2, 0)" by code_simp
  from t a h
  have c: "\<exists>xs. logged (snd (undo_all organized_cleaner)) = logged organized_cleaner @ xs
        \<and> list_all2 reports_attempt (filter (\<lambda>lm. snd lm \<noteq> SaveFailed) xs)
            [(photo_jpg, moved_jpg), (notes_txt, moved_txt)]"
    by auto
  from t b h
  have d: "reports_attempt
      (logged (snd (undo_last organized_cleaner)) ! length (logged organized_cleaner))
      (photo_jpg, moved_jpg)"
    by auto
  from t e
  have f: "\<exists>xs. stdout (snd (undo_loop ?moves 0 0 organized_desktop))
          = stdout organized_desktop @ xs
        \<and> list_all2 reports_line xs ?moves"
    by auto
  from a h b c d e f show ?thesis by blast
qed

text \<open>
  Claim C3 as stated fails for \<open>undo_last_run\<close>: of the two records of the log, the
  one written first is undone first.
\<close>

theorem undo_order_counterexample:
  "parse_log organized_desktop 1 = Inr [(notes_txt, moved_txt), (photo_jpg, moved_jpg)]
   \<and> fst (undo_last_run organized_desktop) = Inr ()
   \<and> effects (snd (undo_last_run organized_desktop))
       = [Renamed moved_txt notes_txt, Renamed moved_jpg photo_jpg]
   \<and> stdout (snd (undo_last_run organized_desktop))
       = [Undoing 1, UndoLine ''notes.txt'' Desktop, UndoLine ''photo.JPG'' Desktop,
          UndoComplete 2 0]"
  by code_simp

section \<open>The end of undo_all\<close>

lemma undo_all_history:
  "(fst (undo_all s) = Inr () \<longrightarrow> history (snd (undo_all s)) = [])
   \<and> (\<forall>e. fst (undo_all s) = Inl e \<longrightarrow>
         (\<exists>n < length (history s). history (snd (undo_all s)) = take n (history s)))"
proof (induction "length (history s)" arbitrary: s)
  case 0
  then show ?case by (simp add: undo_all_empty)
next
  case (Suc m)
  then have ne: "history s \<noteq> []" by auto
  obtain r s1 where u: "undo_last s = (r, s1)" by (cases "undo_last s")
  have h1: "history s1 = butlast (history s)"
    using undo_last_pops [OF ne] u by simp
  show ?case
  proof (cases r)
    case (Inl e)
    have "undo_all s = (Inl e, s1)" using undo_all_raised [OF ne] u Inl by simp
    moreover have "\<exists>n < length (history s). butlast (history s) = take n (history s)"
      using ne by (intro exI [of _ "length (history s) - 1"]) (simp add: butlast_conv_take)
    ultimately show ?thesis using h1 by simp
  next
    case (Inr b)
    have eq: "undo_all s = undo_all s1" using undo_all_next [OF ne] u Inr by simp
    have "m = length (history s1)" using Suc(2) h1 by simp
    from Suc(1) [OF this]
    have ih: "fst (undo_all s1) = Inr () \<longrightarrow> history (snd (undo_all s1)) = []"
      "\<forall>e. fst (undo_all s1) = Inl e \<longrightarrow>
         (\<exists>n < length (history s1). history (snd (undo_all s1)) = take n (history s1))"
      by simp_all
    have "\<exists>n < length (history s). history (snd (undo_all s1)) = take n (history s)"
      if "fst (undo_all s1) = Inl e" for e
    proof -
      from ih(2) that obtain n where n: "n < length (history s1)"
        "history (snd (undo_all s1)) = take n (history s1)" by blast
      have "take n (butlast (history s)) = take n (history s)"
        using n(1) h1 by (simp add: take_butlast)
      with n h1 show ?thesis by (intro exI [of _ n]) simp
    qed
    with ih(1) show ?thesis by (simp add: eq)
  qed
qed

lemma undo_all_stale:
  "\<forall>r \<in> set (history s). \<not> path_exists (fs s) (snd r) \<Longrightarrow>
     fst (undo_all s) = Inr () \<and> fs (snd (undo_all s)) = fs s"
proof (induction "length (history s)" arbitrary: s)
  case 0
  then show ?case by (simp add: undo_all_empty)
next
  case (Suc m)
  then obtain h src dest where h: "history s = h @ [(src, dest)]"
    by (cases "history s" rule: rev_cases) auto
  then have ne: "history s \<noteq> []" by simp
  have st: "\<not> path_exists (fs s) dest" using Suc(3) h by simp
  let ?s1 = "save_history (error (CannotUndo dest) (s\<lparr>history := h\<rparr>))"
  have u: "undo_last s = (Inr False, ?s1)"
    using h st by (simp add: undo_last_def)
  have eq: "undo_all s = undo_all ?s1" by (rule undo_all_next [OF ne u])
  have "m = length (history ?s1)" using Suc(2) h by simp
  moreover have "\<forall>r \<in> set (history ?s1). \<not> path_exists (fs ?s1) (snd r)"
    using Suc(3) h by simp
  ultimately have "fst (undo_all ?s1) = Inr () \<and> fs (snd (undo_all ?s1)) = fs ?s1"
    by (rule Suc(1))
  then show ?case by (simp add: eq)
qed

text \<open>
  Claim C10 (amended).  On a non-empty history \<open>undo_last\<close> pops exactly the last
  record, whether it restores, skips or raises.  \<open>undo_all\<close> is the loop itself (its
  recursion ends because the history gets shorter): when it returns normally the history
  is empty, which is the case at least when every recorded destination is gone; when a
  rename raises, the exception ends it with a shorter history that need not be empty.
\<close>

theorem undo_all_terminates:
  "(history s \<noteq> [] \<longrightarrow> history (snd (undo_last s)) = butlast (history s))
   \<and> undo_all s =
       (if history s = [] then (Inr (), s)
        else (case undo_last s of
                (Inl e, s') \<Rightarrow> (Inl e, s')
              | (Inr _, s') \<Rightarrow> undo_all s'))
   \<and> (fst (undo_all s) = Inr () \<longrightarrow> history (snd (undo_all s)) = [])
   \<and> (\<forall>e. fst (undo_all s) = Inl e \<longrightarrow>
         (\<exists>n < length (history s). history (snd (undo_all s)) = take n (history s)))
   \<and> ((\<forall>r \<in> set (history s). \<not> path_exists (fs s) (snd r)) \<longrightarrow>
         fst (undo_all s) = Inr () \<and> fs (snd (undo_all s)) = fs s)"
  using undo_last_pops [of s] undo_all.simps [of s] undo_all_history [of s] undo_all_stale [of s]
  by blast

theorem undo_all_terminates_witness:
  "history stale_cleaner = [(notes_txt, moved_txt)]
   \<and> \<not> path_exists (fs stale_cleaner) moved_txt
   \<and> history (snd (undo_last stale_cleaner)) = butlast (history stale_cleaner)
   \<and> fst (undo_all stale_cleaner) = Inr ()
   \<and> history (snd (undo_all stale_cleaner)) = []
   \<and> fst (undo_all blocked_cleaner) = Inl IsADirectoryError
   \<and> (\<exists>n < length (history blocked_cleaner).
         history (snd (undo_all blocked_cleaner)) = take n (history blocked_cleaner))"
proof -
  have h: "history stale_cleaner = [(notes_txt, moved_txt)]" by code_simp
  have p: "\<not> path_exists (fs stale_cleaner) moved_txt" by code_simp
  have a: "history stale_cleaner \<noteq> []" by (simp add: h)
  have b: "\<forall>r \<in> set (history stale_cleaner). \<not> path_exists (fs stale_cleaner) (snd r)"
    by (simp add: h p)
  have c: "fst (undo_all blocked_cleaner) = Inl IsADirectoryError" by code_simp
  from undo_all_terminates [of stale_cleaner] a b
  have d: "history (snd (undo_last stale_cleaner)) = butlast (history stale_cleaner)"
    "fst (undo_all stale_cleaner) = Inr ()" "history (snd (undo_all stale_cleaner)) = []"
    by blast+
  from undo_all_terminates [of blocked_cleaner] c
  have e: "\<exists>n < length (history blocked_cleaner).
         history (snd (undo_all blocked_cleaner)) = take n (history blocked_cleaner)"
    by blast
  from h p c d e show ?thesis by blast
qed

text \<open>
  Claim C10 as stated fails: the rename of the last record raises, and \<open>undo_all\<close>
  ends with the first record still in the history and both still in the file.
\<close>

theorem undo_all_terminates_counterexample:
  "history blocked_cleaner = [(notes_txt, moved_txt), (photo_jpg, moved_jpg)]
   \<and> node_at (fs blocked_cleaner) moved_jpg = Some (File ''pixels'')
   \<and> node_at (fs blocked_cleaner) photo_jpg = Some Dir
   \<and> undo_last blocked_cleaner
       = (Inl IsADirectoryError, blocked_cleaner\<lparr>history := [(notes_txt, moved_txt)]\<rparr>)
   \<and> fst (undo_all blocked_cleaner) = Inl IsADirectoryError
   \<and> history (snd (undo_all blocked_cleaner)) = [(notes_txt, moved_txt)]
   \<and> history_file (snd (undo_all blocked_cleaner))
       = Stored [(notes_txt, moved_txt), (photo_jpg, moved_jpg)]"
  by code_simp

section \<open>Occupied destinations\<close>

lemma shutil_move_onto:
  assumes "node_at (fs s) src = Some sn" "sn \<noteq> Dir" "src \<noteq> []" "dst \<noteq> []" "src \<noteq> dst"
    "node_at (fs s) (parent dst) = Some Dir" "node_at (fs s) dst \<noteq> Some Dir"
  shows "shutil_move src dst s =
    (Inr (), s\<lparr>fs := AList.update dst sn (AList.delete src (fs s)),
               effects := effects s @ [Renamed src dst]\<rparr>)"
  using assms by (simp add: shutil_move_def is_dir_def rename_file)

lemma organize_loop_step:
  assumes "is_file (fs s) p"
  shows "organize_loop False (p # rest) s =
    (case move_file p (joinpath (directory s) (categorize (mappings s) p)) s of
       (Inl e, s') \<Rightarrow> (Inl e, s')
     | (Inr _, s') \<Rightarrow> organize_loop False rest s')"
  using assms by simp

text \<open>
  Claim C8 (amended).  Neither program checks for an occupied destination and there is
  no collision error.  When the destination of an entry is an existing file, the move
  replaces it with the moved file, is recorded and reported as any other move, and the
  loop goes on with the remaining entries.  An exception raised by a move is not caught:
  it ends the run at that entry.
\<close>

theorem collision_policy:
  assumes p: "node_at (fs s) p = Some (File c)" "p \<noteq> []" "parent p = directory s"
    and t: "t = joinpath (directory s) (categorize (mappings s) p)" "node_at (fs s) t = Some Dir"
    and occ: "node_at (fs s) (joinpath t (name p)) = Some (File old)"
    and src: "node_at (fs d) src = Some (File c)" "src \<noteq> []" "parent src = desktop"
    and u: "u = joinpath desktop (classify_file src)" "node_at (fs d) u = Some Dir"
    and docc: "node_at (fs d) (joinpath u (name src)) = Some (File old)"
  shows "fst (move_file p t s) = Inr ()
    \<and> organize_loop False (p # rest) s = organize_loop False rest (snd (move_file p t s))
    \<and> node_at (fs (snd (move_file p t s))) (joinpath t (name p)) = Some (File c)
    \<and> node_at (fs (snd (move_file p t s))) p = None
    \<and> history (snd (move_file p t s)) = history s @ [(p, joinpath t (name p))]
    \<and> logged (snd (move_file p t s)) =
         logged s @ (if history_writable s then [] else [(ERROR, SaveFailed)])
           @ [(INFO, Moved (name p) (name t))]
    \<and> (\<exists>d'. move_loop ((src, u) # moves) d = move_loop moves d'
          \<and> node_at (fs d') (joinpath u (name src)) = Some (File c)
          \<and> node_at (fs d') src = None
          \<and> stdout d' = stdout d @ [MovedLine (name src) (name u)]
          \<and> log_dir d' = log_dir d)
    \<and> (is_file (fs s) q
          \<and> fst (move_file q (joinpath (directory s) (categorize (mappings s) q)) s) = Inl e
        \<longrightarrow> fst (organize_loop False (q # rest) s) = Inl e)
    \<and> (fst (mkdir v d) = Inl e \<or>
        fst (mkdir v d) = Inr () \<and> fst (shutil_move w (joinpath v (name w)) (snd (mkdir v d))) = Inl e
        \<longrightarrow> fst (move_loop ((w, v) # moves) d) = Inl e)"
proof -
  let ?dest = "joinpath t (name p)"
  let ?ddest = "joinpath u (name src)"
  have pt: "p \<noteq> t" using p(1) t(2) by auto
  have pd: "p \<noteq> ?dest"
    using child_length [OF p(2)] p(3) t(1) by (auto dest: arg_cong [where f = length])
  have tne: "t \<noteq> []" using t(1) by simp
  have tt: "node_at (fs s) t = Some Dir
            \<or> node_at (fs s) t = None \<and> node_at (fs s) (parent t) = Some Dir"
    using t(2) by simp
  have oo: "node_at (fs s) ?dest \<noteq> Some Dir" using occ by simp
  note mf = move_file_ok [OF p(1,2) pt tne tt oo pd]
  have a1: "fst (move_file p t s) = Inr ()"
    by (rule mf)
  have a2: "history (snd (move_file p t s)) = history s @ [(p, ?dest)]"
    by (rule mf)
  have a3: "node_at (fs (snd (move_file p t s))) q =
          (if q = ?dest then Some (File c) else if q = p then None
           else if q = t then Some Dir else node_at (fs s) q)" for q
    by (rule mf)
  have a4: "logged (snd (move_file p t s)) =
         logged s @ (if history_writable s then [] else [(ERROR, SaveFailed)])
           @ [(INFO, Moved (name p) (name t))]"
    by (rule mf)
  have isf: "is_file (fs s) p" using p(1) by (simp add: is_file_def)
  obtain s' where m: "move_file p t s = (Inr (), s')"
    using a1 by (cases "move_file p t s") simp
  have a5: "organize_loop False (p # rest) s = organize_loop False rest (snd (move_file p t s))"
    using organize_loop_step [OF isf, of rest] m by (simp add: t(1) [symmetric])
  have sd: "src \<noteq> ?ddest"
    using child_length [OF src(2)] src(3) u(1) by (auto dest: arg_cong [where f = length])
  have su: "src \<noteq> u" using src(1) u(2) by auto
  have une: "u \<noteq> []" using u(1) by simp
  let ?d' = "d\<lparr>fs := AList.update ?ddest (File c) (AList.delete src (fs d)),
               effects := effects d @ [Renamed src ?ddest]\<rparr>"
  have sm: "shutil_move src ?ddest d = (Inr (), ?d')"
    by (rule shutil_move_onto) (use src u docc sd in simp_all)
  have ml: "move_loop ((src, u) # moves) d =
      move_loop moves (print (MovedLine (name src) (name u)) ?d')"
    by (simp add: mkdir_old [OF u(2)] sm)
  have b: "\<exists>d'. move_loop ((src, u) # moves) d = move_loop moves d'
          \<and> node_at (fs d') ?ddest = Some (File c)
          \<and> node_at (fs d') src = None
          \<and> stdout d' = stdout d @ [MovedLine (name src) (name u)]
          \<and> log_dir d' = log_dir d"
    using sd src(2)
    by (intro exI [of _ "print (MovedLine (name src) (name u)) ?d'"])
       (simp add: ml node_at_update node_at_delete del: move_loop.simps)
  have c1: "fst (organize_loop False (q # rest) s) = Inl e"
    if q1: "is_file (fs s) q"
      and q2: "fst (move_file q (joinpath (directory s) (categorize (mappings s) q)) s) = Inl e"
  proof -
    obtain s2 where
      "move_file q (joinpath (directory s) (categorize (mappings s) q)) s = (Inl e, s2)"
      using q2
      by (cases "move_file q (joinpath (directory s) (categorize (mappings s) q)) s") simp
    with organize_loop_step [OF q1, of rest] show ?thesis by simp
  qed
  have c2: "fst (move_loop ((w, v) # moves) d) = Inl e"
    if "fst (mkdir v d) = Inl e \<or>
        fst (mkdir v d) = Inr () \<and> fst (shutil_move w (joinpath v (name w)) (snd (mkdir v d))) = Inl e"
  proof -
    obtain r1 d1 where m1: "mkdir v d = (r1, d1)" by (cases "mkdir v d")
    obtain r2 d2 where m2: "shutil_move w (joinpath v (name w)) d1 = (r2, d2)"
      by (cases "shutil_move w (joinpath v (name w)) d1")
    from that m1 m2 show ?thesis by (cases r1) auto
  qed
  from a1 a2 a3 [of ?dest] a3 [of p] a4 a5 b c1 c2 pd show ?thesis
    by simp
qed


theorem collision_policy_witness:
  "node_at (fs collide_cleaner) notes_txt = Some (File ''new'')
   \<and> node_at (fs collide_cleaner) moved_txt = Some (File ''old'')
   \<and> fst (move_file notes_txt [''home'', ''Desktop'', ''Documents''] collide_cleaner) = Inr ()
   \<and> node_at (fs (snd (move_file notes_txt [''home'', ''Desktop'', ''Documents''] collide_cleaner)))
         moved_txt = Some (File ''new'')
   \<and> organize_loop False [notes_txt, photo_jpg] collide_cleaner
       = organize_loop False [photo_jpg]
           (snd (move_file notes_txt [''home'', ''Desktop'', ''Documents''] collide_cleaner))
   \<and> (\<exists>d'. move_loop [(notes_txt, [''home'', ''Desktop'', ''Documents''])] collide_desktop
               = move_loop [] d'
          \<and> node_at (fs d') moved_txt = Some (File ''new''))"
proof -
  let ?docs = "[''home'', ''Desktop'', ''Documents'']"
  have p: "node_at (fs collide_cleaner) notes_txt = Some (File ''new'')" "notes_txt \<noteq> []"
    "parent notes_txt = directory collide_cleaner"
    by code_simp+
  have t: "?docs = joinpath (directory collide_cleaner)
                     (categorize (mappings collide_cleaner) notes_txt)"
    "node_at (fs collide_cleaner) ?docs = Some Dir"
    by code_simp+
  have j: "joinpath ?docs (name notes_txt) = moved_txt" by code_simp
  have occ: "node_at (fs collide_cleaner) (joinpath ?docs (name notes_txt)) = Some (File ''old'')"
    by code_simp
  have src: "node_at (fs collide_desktop) notes_txt = Some (File ''new'')"
    "parent notes_txt = Desktop"
    by code_simp+
  have u: "?docs = joinpath Desktop (classify_file notes_txt)"
    "node_at (fs collide_desktop) ?docs = Some Dir"
    by code_simp+
  have docc: "node_at (fs collide_desktop) (joinpath ?docs (name notes_txt)) = Some (File ''old'')"
    by code_simp
  note c = collision_policy [OF p t occ src(1) p(2) src(2) u docc,
      where rest = "[photo_jpg]" and moves = "[]" and q = notes_txt and e = OSError
        and v = ?docs and w = notes_txt]
  from c have 1: "fst (move_file notes_txt ?docs collide_cleaner) = Inr ()" by blast
  from c have 2: "node_at (fs (snd (move_file notes_txt ?docs collide_cleaner)))
         (joinpath ?docs (name notes_txt)) = Some (File ''new'')" by blast
  from c have 3: "organize_loop False [notes_txt, photo_jpg] collide_cleaner
       = organize_loop False [photo_jpg] (snd (move_file notes_txt ?docs collide_cleaner))"
    by blast
  from c have 4: "\<exists>d'. move_loop [(notes_txt, ?docs)] collide_desktop = move_loop [] d'
          \<and> node_at (fs d') (joinpath ?docs (name notes_txt)) = Some (File ''new'')"
    by blast
  from p(1) occ 1 2 3 4 show ?thesis unfolding j by blast
qed

text \<open>
  Claim C8 as stated fails in both programs: the file already at the destination is
  replaced without any error, and the run reports two ordinary moves.  Where a move does
  raise (the destination is a folder), \<open>FileCleaner.organize\<close> ends there: the picture
  is not moved, and the record of the failed move stays in the history.
\<close>

theorem collision_policy_counterexample:
  "node_at (fs collide_cleaner) moved_txt = Some (File ''old'')
   \<and> fst (organize False collide_cleaner) = Inr ()
   \<and> node_at (fs (snd (organize False collide_cleaner))) moved_txt = Some (File ''new'')
   \<and> logged (snd (organize False collide_cleaner))
       = [(INFO, Organizing Desktop), (INFO, Moved ''notes.txt'' ''Documents''),
          (INFO, Moved ''photo.JPG'' ''Images'')]
   \<and> fst (clean_desktop Desktop False 7 collide_desktop) = Inr 2
   \<and> node_at (fs (snd (clean_desktop Desktop False 7 collide_desktop))) moved_txt
       = Some (File ''new'')
   \<and> stdout (snd (clean_desktop Desktop False 7 collide_desktop))
       = [MovedLine ''notes.txt'' ''Documents'', MovedLine ''photo.JPG'' ''Images'',
          LogWritten 7, MovedDone 2]
   \<and> fst (organize False abort_cleaner) = Inl IsADirectoryError
   \<and> node_at (fs (snd (organize False abort_cleaner))) photo_jpg = Some (File ''pixels'')
   \<and> history (snd (organize False abort_cleaner)) = [(notes_txt, moved_txt)]"
  by code_simp

section \<open>The order of ledger writes and moves\<close>

lemma durable_append:
  "durable_before_move X es1 \<Longrightarrow> (\<And>Y. durable_before_move Y es2)
     \<Longrightarrow> durable_before_move X (es1 @ es2)"
  by (induction X es1 rule: durable_before_move.induct) simp_all

lemma move_file_durable:
  assumes "history_writable s"
  shows "\<exists>es. effects (snd (move_file p t s)) = effects s @ es
           \<and> (\<forall>X. durable_before_move X es)"
    and "history_writable (snd (move_file p t s))"
proof -
  obtain r1 s1 where m1: "mkdir t s = (r1, s1)" by (cases "mkdir t s")
  have w1: "history_writable s1 = history_writable s"
    using mkdir_more [of t s] m1 by (intro cleaner_more_fields) simp
  have e1: "\<exists>es. effects s1 = effects s @ es \<and> (\<forall>X. durable_before_move X es)"
    using m1 by (auto simp: mkdir_def split: sum.splits if_splits)
  let ?dest = "joinpath t (name p)"
  let ?s2 = "record_move p ?dest s1"
  obtain r3 s3 where m3: "rename p ?dest ?s2 = (r3, s3)" by (cases "rename p ?dest ?s2")
  have w3: "history_writable s3 = history_writable ?s2"
    using rename_more [of p ?dest ?s2] m3 by (intro cleaner_more_fields) simp
  have e3: "effects s3 = effects ?s2 \<or> effects s3 = effects ?s2 @ [Renamed p ?dest]"
    using m3 by (auto simp: rename_def split: sum.splits)
  from e1 obtain es1 where es1: "effects s1 = effects s @ es1" "\<And>X. durable_before_move X es1"
    by blast
  have e2: "effects ?s2 = effects s @ es1 @ [SavedHistory (history s1 @ [(p, ?dest)])]"
    using assms w1 es1(1) by simp
  have d2: "durable_before_move X (es1 @ [SavedHistory (history s1 @ [(p, ?dest)])])" for X
    by (rule durable_append [OF es1(2)]) simp
  have d3: "durable_before_move X
      (es1 @ [SavedHistory (history s1 @ [(p, ?dest)])] @ [Renamed p ?dest])" for X
    by (rule durable_append [OF es1(2)]) simp
  show "history_writable (snd (move_file p t s))"
    using assms w1 w3 m1 m3 by (cases r1; cases r3) (simp_all add: move_file_def Let_def)
  show "\<exists>es. effects (snd (move_file p t s)) = effects s @ es
           \<and> (\<forall>X. durable_before_move X es)"
  proof (cases r1)
    case (Inl e)
    with m1 es1 show ?thesis by (auto simp: move_file_def)
  next
    case (Inr x)
    from e3 show ?thesis
    proof
      assume "effects s3 = effects ?s2"
      with Inr m1 m3 e2 d2 show ?thesis
        by (cases r3) (auto simp: move_file_def Let_def)
    next
      assume "effects s3 = effects ?s2 @ [Renamed p ?dest]"
      with Inr m1 m3 e2 d3 show ?thesis
        by (cases r3) (auto simp: move_file_def Let_def)
    qed
  qed
qed

lemma organize_loop_durable:
  "history_writable s \<Longrightarrow>
     \<exists>es. effects (snd (organize_loop False ps s)) = effects s @ es
       \<and> (\<forall>X. durable_before_move X es)"
proof (induction ps arbitrary: s)
  case Nil
  show ?case by simp
next
  case (Cons p ps)
  show ?case
  proof (cases "is_file (fs s) p")
    case False
    with Cons show ?thesis by simp
  next
    case True
    let ?t = "joinpath (directory s) (categorize (mappings s) p)"
    obtain r s' where m: "move_file p ?t s = (r, s')" by (cases "move_file p ?t s")
    from move_file_durable [OF Cons.prems, of p ?t] m obtain es1 where
      es1: "effects s' = effects s @ es1" "\<And>X. durable_before_move X es1"
      and w: "history_writable s'"
      by auto
    show ?thesis
    proof (cases r)
      case (Inl e)
      with True m es1 show ?thesis by (auto simp: Let_def)
    next
      case (Inr x)
      from Cons.IH [OF w] obtain es2 where
        es2: "effects (snd (organize_loop False ps s')) = effects s' @ es2"
          "\<And>X. durable_before_move X es2"
        by blast
      have "effects (snd (organize_loop False (p # ps) s)) = effects s @ (es1 @ es2)"
        using True m Inr es1(1) es2(1) by (simp add: Let_def)
      moreover have "\<forall>X. durable_before_move X (es1 @ es2)"
        using durable_append [OF es1(2) es2(2)] by simp
      ultimately show ?thesis by blast
    qed
  qed
qed


lemma mkdir_effects:
  "\<exists>es. effects (snd (mkdir p s)) = effects s @ es \<and> list_all (\<lambda>e. \<not> writes_ledger e) es"
  by (auto simp: mkdir_def split: sum.splits)

lemma shutil_move_effects:
  "\<exists>es. effects (snd (shutil_move a b s)) = effects s @ es
     \<and> list_all (\<lambda>e. \<not> writes_ledger e) es"
  by (auto simp: shutil_move_def rename_def Let_def split: sum.splits)

lemma move_loop_effects:
  "(\<exists>es. effects (snd (move_loop moves d)) = effects d @ es
       \<and> list_all (\<lambda>e. \<not> writes_ledger e) es)
   \<and> log_dir (snd (move_loop moves d)) = log_dir d"
proof (induction moves arbitrary: d)
  case Nil
  show ?case by simp
next
  case (Cons m moves)
  obtain src t where m: "m = (src, t)" by (cases m)
  obtain r1 d1 where m1: "mkdir t d = (r1, d1)" by (cases "mkdir t d")
  obtain r2 d2 where m2: "shutil_move src (joinpath t (name src)) d1 = (r2, d2)"
    by (cases "shutil_move src (joinpath t (name src)) d1")
  have l1: "log_dir d1 = log_dir d"
    using mkdir_more [of t d] m1 by (intro desktop_more_fields) simp
  have l2: "log_dir d2 = log_dir d1"
    using shutil_move_more [of src "joinpath t (name src)" d1] m2
    by (intro desktop_more_fields) simp
  from mkdir_effects [of t d] m1 obtain es1 where
    es1: "effects d1 = effects d @ es1" "list_all (\<lambda>e. \<not> writes_ledger e) es1" by auto
  from shutil_move_effects [of src "joinpath t (name src)" d1] m2 obtain es2 where
    es2: "effects d2 = effects d1 @ es2" "list_all (\<lambda>e. \<not> writes_ledger e) es2" by auto
  let ?d3 = "print (MovedLine (name src) (name t)) d2"
  from Cons.IH [of ?d3] obtain es3 where
    es3: "effects (snd (move_loop moves ?d3)) = effects ?d3 @ es3"
      "list_all (\<lambda>e. \<not> writes_ledger e) es3"
    and l3: "log_dir (snd (move_loop moves ?d3)) = log_dir ?d3"
    by auto
  show ?case
  proof (cases r1)
    case (Inl e)
    with m m1 l1 es1 show ?thesis by auto
  next
    case (Inr x)
    note r1 = this
    show ?thesis
    proof (cases r2)
      case (Inl e)
      have "effects d2 = effects d @ (es1 @ es2)" "list_all (\<lambda>e. \<not> writes_ledger e) (es1 @ es2)"
        using es1 es2 by simp_all
      with m m1 m2 r1 Inl l1 l2 show ?thesis by (auto simp: Let_def)
    next
      case (Inr y)
      have "effects (snd (move_loop moves ?d3)) = effects d @ (es1 @ es2 @ es3)"
        "list_all (\<lambda>e. \<not> writes_ledger e) (es1 @ es2 @ es3)"
        using es1 es2 es3 by simp_all
      with m m1 m2 r1 Inr l1 l2 l3 show ?thesis by (auto simp: Let_def)
    qed
  qed
qed

text \<open>
  Claim C2 (amended).  In \<open>FileCleaner\<close>, when the history file can be written, every
  move of a run is made after the history holding its record was saved, whatever the
  outcome of the run.  In \<open>clean_desktop\<close> the loop of moves writes no log: the log is
  written once, after the last move, and not at all when a move raises.
\<close>

theorem durability_order:
  "(history_writable s \<longrightarrow>
      (\<exists>es. effects (snd (organize False s)) = effects s @ es
         \<and> (\<forall>persisted. durable_before_move persisted es)))
   \<and> (\<exists>es. effects (snd (move_loop moves d)) = effects d @ es
         \<and> list_all (\<lambda>e. \<not> writes_ledger e) es)
   \<and> log_dir (snd (move_loop moves d)) = log_dir d
   \<and> (\<forall>n. fst (clean_desktop desktop False now d) = Inr n \<and> 0 < n \<longrightarrow>
         (\<exists>es lines. effects (snd (clean_desktop desktop False now d))
                        = effects d @ es @ [WroteLog now lines]
            \<and> list_all (\<lambda>e. \<not> writes_ledger e) es))
   \<and> (\<forall>e. fst (clean_desktop desktop False now d) = Inl e \<longrightarrow>
         log_dir (snd (clean_desktop desktop False now d)) = log_dir d)"
proof (intro conjI impI allI)
  assume w: "history_writable s"
  let ?s0 = "info (Organizing (directory s)) s"
  have "history_writable ?s0" using w by simp
  from organize_loop_durable [OF this] show
    "\<exists>es. effects (snd (organize False s)) = effects s @ es
         \<and> (\<forall>persisted. durable_before_move persisted es)"
    by (cases "iterdir (fs s) (directory s)") (simp_all add: organize_def Let_def)
next
  show "\<exists>es. effects (snd (move_loop moves d)) = effects d @ es
         \<and> list_all (\<lambda>e. \<not> writes_ledger e) es"
    using move_loop_effects [of moves d] by blast
  show "log_dir (snd (move_loop moves d)) = log_dir d"
    using move_loop_effects [of moves d] by blast
next
  fix n
  assume a: "fst (clean_desktop desktop False now d) = Inr n \<and> 0 < n"
  then obtain plan where p: "plan_moves (fs d) desktop = Inr plan"
    by (cases "plan_moves (fs d) desktop") (simp_all add: clean_desktop_def)
  obtain r d1 where m: "move_loop plan d = (r, d1)" by (cases "move_loop plan d")
  from move_loop_effects [of plan d] m obtain es where
    es: "effects d1 = effects d @ es" "list_all (\<lambda>e. \<not> writes_ledger e) es" by auto
  have ne: "plan \<noteq> []" using a p by (auto simp: clean_desktop_def split: if_splits)
  from a p m ne obtain x where r: "r = Inr x"
    by (cases r) (simp_all add: clean_desktop_def)
  have "effects (snd (clean_desktop desktop False now d)) =
      effects d @ es @ [WroteLog now (map (\<lambda>(src, t). (src, joinpath t (name src))) plan)]"
    using p m ne r es(1) by (simp add: clean_desktop_def write_log_def Let_def)
  with es(2) show "\<exists>es lines. effects (snd (clean_desktop desktop False now d))
                        = effects d @ es @ [WroteLog now lines]
            \<and> list_all (\<lambda>e. \<not> writes_ledger e) es"
    by blast
next
  fix e
  assume a: "fst (clean_desktop desktop False now d) = Inl e"
  show "log_dir (snd (clean_desktop desktop False now d)) = log_dir d"
  proof (cases "plan_moves (fs d) desktop")
    case (Inl e')
    then show ?thesis by (simp add: clean_desktop_def)
  next
    case (Inr plan)
    obtain r d1 where m: "move_loop plan d = (r, d1)" by (cases "move_loop plan d")
    have l: "log_dir d1 = log_dir d" using move_loop_effects [of plan d] m by simp
    from a Inr m obtain e' where "r = Inl e'"
      by (cases r) (auto simp: clean_desktop_def Let_def split: if_splits prod.splits)
    with Inr m l a show ?thesis
      by (auto simp: clean_desktop_def split: if_splits)
  qed
qed

theorem durability_order_witness:
  "history_writable plain_cleaner
   \<and> effects plain_cleaner = []
   \<and> durable_before_move [] (effects (snd (organize False plain_cleaner)))
   \<and> fst (clean_desktop Desktop False 7 plain_desktop) = Inr 2
   \<and> (\<exists>es lines. effects (snd (clean_desktop Desktop False 7 plain_desktop))
                        = effects plain_desktop @ es @ [WroteLog 7 lines]
            \<and> list_all (\<lambda>e. \<not> writes_ledger e) es)"
proof -
  have w: "history_writable plain_cleaner" by code_simp
  have e: "effects plain_cleaner = []" by code_simp
  have c: "fst (clean_desktop Desktop False 7 plain_desktop) = Inr 2" by code_simp
  note t = durability_order [of plain_cleaner "[]" plain_desktop Desktop 7]
  from t w e have 1: "durable_before_move [] (effects (snd (organize False plain_cleaner)))"
    by auto
  from t c have 2: "\<exists>es lines. effects (snd (clean_desktop Desktop False 7 plain_desktop))
                        = effects plain_desktop @ es @ [WroteLog 7 lines]
            \<and> list_all (\<lambda>e. \<not> writes_ledger e) es"
    by auto
  from w e c 1 2 show ?thesis by blast
qed

text \<open>
  Claim C2 as stated fails for \<open>clean_desktop\<close>: both files are moved before anything is
  written to the log directory.
\<close>

theorem durability_order_counterexample:
  "effects (snd (clean_desktop Desktop False 7 plain_desktop)) =
     [MadeDir [''home'', ''Desktop'', ''Documents''], Renamed notes_txt moved_txt,
      MadeDir [''home'', ''Desktop'', ''Images''], Renamed photo_jpg moved_jpg,
      WroteLog 7 [(notes_txt, moved_txt), (photo_jpg, moved_jpg)]]
   \<and> \<not> durable_before_move [] (effects (snd (clean_desktop Desktop False 7 plain_desktop)))"
  by code_simp

section \<open>Organizing and undoing\<close>

lemma child_eq:
  assumes "p \<noteq> []" "q \<noteq> []" "parent p = parent q" "name p = name q"
  shows "p = q"
proof -
  have "p = joinpath (parent p) (name p)" by (rule joinpath_parent_name [OF assms(1), symmetric])
  also have "\<dots> = joinpath (parent q) (name q)" by (simp only: assms(3,4))
  also have "\<dots> = q" by (rule joinpath_parent_name [OF assms(2)])
  finally show ?thesis .
qed

lemma length_neq: "length p \<noteq> length q \<Longrightarrow> p \<noteq> q"
  by auto

lemma round_trip_loop:
  assumes d: "node_at (fs s) (directory s) = Some Dir"
    and ch: "\<forall>p \<in> set ps. p \<noteq> [] \<and> parent p = directory s"
    and H: "\<forall>p \<in> set ps. is_file (fs s) p \<longrightarrow>
              no_collision (fs s) (joinpath (directory s) (categorize (mappings s) p)) p"
  shows "\<exists>s1 s2. organize_loop False ps s = (Inr (), s1) \<and> undo_all s1 = undo_all s2
           \<and> restored_from
                ((\<lambda>p. joinpath (directory s) (categorize (mappings s) p))
                   ` {p \<in> set ps. is_file (fs s) p}) s s2"
  using assms
proof (induction ps arbitrary: s)
  case Nil
  have "restored_from {} s s" by (simp add: restored_from_def)
  then show ?case by auto
next
  case (Cons p ps)
  let ?d = "directory s"
  let ?tdir = "\<lambda>p. joinpath ?d (categorize (mappings s) p)"
  let ?T = "\<lambda>s ps. ?tdir ` {p \<in> set ps. is_file (fs s) p}"
  show ?case
  proof (cases "is_file (fs s) p")
    case False
    have "\<exists>s1 s2. organize_loop False ps s = (Inr (), s1) \<and> undo_all s1 = undo_all s2
           \<and> restored_from (?T s ps) s s2"
      using Cons.prems by (intro Cons.IH) simp_all
    moreover have "?T s (p # ps) = ?T s ps" using False by auto
    ultimately show ?thesis using False by simp
  next
    case True
    then obtain c where c: "node_at (fs s) p = Some (File c)"
      by (auto simp: is_file_def split: option.splits node.splits)
    let ?t = "?tdir p"
    let ?dest = "joinpath ?t (name p)"
    have pch: "p \<noteq> []" "parent p = ?d" using Cons.prems(2) by simp_all
    have lp: "length p = Suc (length ?d)" using child_length [OF pch(1)] pch(2) by simp
    have nc: "node_at (fs s) ?t = None \<or> node_at (fs s) ?t = Some Dir"
      "node_at (fs s) ?dest = None"
      using Cons.prems(3) True by (simp_all add: no_collision_def)
    have pt: "p \<noteq> ?t" using c nc(1) by auto
    have pd: "p \<noteq> ?dest" by (rule length_neq) (simp add: lp)
    have dd: "?d \<noteq> ?dest" "?d \<noteq> ?t" "?d \<noteq> p"
      by (rule length_neq, simp add: lp)+
    have tc: "node_at (fs s) ?t = Some Dir
              \<or> node_at (fs s) ?t = None \<and> node_at (fs s) (parent ?t) = Some Dir"
      using nc(1) Cons.prems(1) by auto
    have dn: "node_at (fs s) ?dest \<noteq> Some Dir" using nc(2) by simp
    note mf = move_file_ok [OF c pch(1) pt joinpath_not_Nil tc dn pd]
    define s' where "s' = snd (move_file p ?t s)"
    have m: "move_file p ?t s = (Inr (), s')"
      using mf(1) by (cases "move_file p ?t s") (simp add: s'_def)
    have hs': "history s' = history s @ [(p, ?dest)]" using mf(2) by (simp add: s'_def)
    have ns': "node_at (fs s') q =
          (if q = ?dest then Some (File c) else if q = p then None
           else if q = ?t then Some Dir else node_at (fs s) q)" for q
      using mf(3) [of q] by (simp add: s'_def)
    have cs': "history_writable s' = history_writable s" "directory s' = ?d"
      "mappings s' = mappings s"
      using mf(4,5,6) by (simp_all add: s'_def)
    \<comment> \<open>a later entry that is a file after the move was one before it\<close>
    have star: "is_file (fs s) q" if q: "q \<in> set ps" "is_file (fs s') q" for q
    proof -
      have "q \<noteq> []" "parent q = ?d" using Cons.prems(2) q(1) by simp_all
      then have "length q = Suc (length ?d)" using child_length [of q] by simp
      then have "q \<noteq> ?dest" by (intro length_neq) simp
      with q(2) show ?thesis
        by (auto simp: is_file_def ns' split: if_splits)
    qed
    have d': "node_at (fs s') (directory s') = Some Dir"
      using dd Cons.prems(1) by (simp add: ns' cs')
    have ch': "\<forall>q \<in> set ps. q \<noteq> [] \<and> parent q = directory s'"
      using Cons.prems(2) by (simp add: cs')
    have H': "\<forall>q \<in> set ps. is_file (fs s') q \<longrightarrow>
              no_collision (fs s') (joinpath (directory s') (categorize (mappings s') q)) q"
    proof (intro ballI impI)
      fix q assume q: "q \<in> set ps" "is_file (fs s') q"
      have qf: "is_file (fs s) q" by (rule star [OF q])
      have qch: "q \<noteq> []" "parent q = ?d" using Cons.prems(2) q(1) by simp_all
      have qn: "node_at (fs s) (?tdir q) = None \<or> node_at (fs s) (?tdir q) = Some Dir"
        "node_at (fs s) (joinpath (?tdir q) (name q)) = None"
        using Cons.prems(3) q(1) qf by (simp_all add: no_collision_def)
      have qp: "q \<noteq> p" using q(2) pd by (auto simp: is_file_def ns')
      have t1: "?tdir q \<noteq> p" using qn(1) c by auto
      have t2: "?tdir q \<noteq> ?dest" by simp
      have d1: "joinpath (?tdir q) (name q) \<noteq> ?dest"
      proof
        assume "joinpath (?tdir q) (name q) = ?dest"
        then have "name q = name p" by simp
        from child_eq [OF qch(1) pch(1) _ this] qch(2) pch(2) qp show False by simp
      qed
      have d2: "joinpath (?tdir q) (name q) \<noteq> p"
        by (rule length_neq) (simp add: lp)
      have d3: "joinpath (?tdir q) (name q) \<noteq> ?t" by simp
      show "no_collision (fs s') (joinpath (directory s') (categorize (mappings s') q)) q"
        using qn t1 t2 d1 d2 d3 by (simp add: no_collision_def cs' ns')
    qed
    from Cons.IH [OF d' ch' H'] obtain s1 s2' where
      ih: "organize_loop False ps s' = (Inr (), s1)" "undo_all s1 = undo_all s2'"
        "restored_from (?T s' ps) s' s2'"
      by (auto simp: cs')
    have o: "organize_loop False (p # ps) s = (Inr (), s1)"
      using True m ih(1) by (simp add: Let_def)
    have r: "history s2' = history s @ [(p, ?dest)]" "directory s2' = ?d"
      "mappings s2' = mappings s" "history_writable s2' = history_writable s"
      using ih(3) hs' cs' by (simp_all add: restored_from_def)
    have rn: "node_at (fs s2') q = node_at (fs s') q
              \<or> (q \<in> ?T s' ps \<and> node_at (fs s') q = None \<and> node_at (fs s2') q = Some Dir)" for q
      using ih(3) by (simp add: restored_from_def)
    have u1: "node_at (fs s2') ?dest = Some (File c)" using rn [of ?dest] by (simp add: ns')
    have u2: "node_at (fs s2') (parent p) = Some Dir"
      using rn [of ?d] dd Cons.prems(1) pch(2) by (simp add: ns')
    have u3: "node_at (fs s2') p \<noteq> Some Dir"
    proof
      assume a: "node_at (fs s2') p = Some Dir"
      with rn [of p] pd have "p \<in> ?T s' ps" by (simp add: ns')
      then obtain q where q: "q \<in> set ps" "is_file (fs s') q" "p = ?tdir q" by auto
      have "is_file (fs s) q" by (rule star [OF q(1,2)])
      with Cons.prems(3) q(1) have
        "node_at (fs s) (?tdir q) = None \<or> node_at (fs s) (?tdir q) = Some Dir"
        by (simp add: no_collision_def)
      with c q(3) show False by auto
    qed
    note ul = undo_last_ok [OF r(1) u1 _ joinpath_not_Nil pd [symmetric] pch(1) u2 u3]
    define s2 where "s2 = snd (undo_last s2')"
    have ua: "undo_all s2' = undo_all s2"
      unfolding s2_def by (rule undo_all_step [of s2' True]) (simp_all add: r(1) ul(1))
    have n2: "node_at (fs s2) q =
          (if q = p then Some (File c) else if q = ?dest then None else node_at (fs s2') q)" for q
      using ul(3) [of q] by (simp add: s2_def)
    have "restored_from (?T s (p # ps)) s s2"
      unfolding restored_from_def
    proof (intro conjI allI)
      show "history s2 = history s" using ul(2) by (simp add: s2_def)
      show "directory s2 = ?d" using ul(5) r by (simp add: s2_def)
      show "mappings s2 = mappings s" using ul(6) r by (simp add: s2_def)
      show "history_writable s2 = history_writable s" using ul(4) r by (simp add: s2_def)
      fix q
      show "node_at (fs s2) q = node_at (fs s) q
          \<or> (q \<in> ?T s (p # ps) \<and> node_at (fs s) q = None \<and> node_at (fs s2) q = Some Dir)"
      proof (cases "q = p \<or> q = ?dest")
        case True
        then show ?thesis using c nc(2) pd by (auto simp: n2)
      next
        case False
        then have q2: "node_at (fs s2) q = node_at (fs s2') q" by (simp add: n2)
        have qs': "node_at (fs s') q = (if q = ?t then Some Dir else node_at (fs s) q)"
          using False by (simp add: ns')
        from rn [of q] show ?thesis
        proof
          assume e: "node_at (fs s2') q = node_at (fs s') q"
          show ?thesis
          proof (cases "q = ?t")
            case True
            have "?t \<in> ?T s (p # ps)" using \<open>is_file (fs s) p\<close> by auto
            with True nc(1) e q2 qs' show ?thesis by auto
          next
            case False
            with e q2 qs' show ?thesis by simp
          qed
        next
          assume b: "q \<in> ?T s' ps \<and> node_at (fs s') q = None \<and> node_at (fs s2') q = Some Dir"
          then obtain q' where q': "q' \<in> set ps" "is_file (fs s') q'" "q = ?tdir q'" by auto
          have "is_file (fs s) q'" by (rule star [OF q'(1,2)])
          with q' have "q \<in> ?T s (p # ps)" by auto
          moreover have "node_at (fs s) q = None" using b qs' by (auto split: if_splits)
          ultimately show ?thesis using b q2 by simp
        qed
      qed
    qed
    with o ih(2) ua show ?thesis by auto
  qed
qed

lemma organize_loop_moves:
  assumes d: "node_at (fs s) (directory s) = Some Dir"
    and ch: "\<forall>p \<in> set ps. p \<noteq> [] \<and> parent p = directory s"
    and dist: "distinct ps"
    and H: "\<forall>p \<in> set ps. is_file (fs s) p \<longrightarrow>
              no_collision (fs s) (joinpath (directory s) (categorize (mappings s) p)) p"
  shows "history (snd (organize_loop False ps s)) =
           history s @ map (\<lambda>p. (p, joinpath (joinpath (directory s) (categorize (mappings s) p)) (name p)))
                         (filter (is_file (fs s)) ps)
         \<and> (\<forall>p \<in> set ps. is_file (fs s) p \<longrightarrow>
               node_at (fs (snd (organize_loop False ps s))) p = None
               \<and> node_at (fs (snd (organize_loop False ps s)))
                    (joinpath (joinpath (directory s) (categorize (mappings s) p)) (name p))
                  = node_at (fs s) p)
         \<and> (\<forall>q. (\<forall>p \<in> set ps. is_file (fs s) p \<longrightarrow>
                     q \<noteq> p \<and> q \<noteq> joinpath (directory s) (categorize (mappings s) p)
                     \<and> q \<noteq> joinpath (joinpath (directory s) (categorize (mappings s) p)) (name p))
               \<longrightarrow> node_at (fs (snd (organize_loop False ps s))) q = node_at (fs s) q)"
  using assms
proof (induction ps arbitrary: s)
  case Nil
  show ?case by simp
next
  case (Cons p ps)
  let ?d = "directory s"
  let ?tdir = "\<lambda>p. joinpath ?d (categorize (mappings s) p)"
  let ?dst = "\<lambda>p. joinpath (?tdir p) (name p)"
  show ?case
  proof (cases "is_file (fs s) p")
    case False
    have "history (snd (organize_loop False ps s)) =
           history s @ map (\<lambda>p. (p, ?dst p)) (filter (is_file (fs s)) ps)
         \<and> (\<forall>p \<in> set ps. is_file (fs s) p \<longrightarrow>
               node_at (fs (snd (organize_loop False ps s))) p = None
               \<and> node_at (fs (snd (organize_loop False ps s))) (?dst p) = node_at (fs s) p)
         \<and> (\<forall>q. (\<forall>p \<in> set ps. is_file (fs s) p \<longrightarrow> q \<noteq> p \<and> q \<noteq> ?tdir p \<and> q \<noteq> ?dst p)
               \<longrightarrow> node_at (fs (snd (organize_loop False ps s))) q = node_at (fs s) q)"
      using Cons.prems by (intro Cons.IH) simp_all
    with False show ?thesis by simp
  next
    case True
    then obtain c where c: "node_at (fs s) p = Some (File c)"
      by (auto simp: is_file_def split: option.splits node.splits)
    let ?t = "?tdir p"
    let ?dest = "?dst p"
    have pch: "p \<noteq> []" "parent p = ?d" using Cons.prems(2) by simp_all
    have lp: "length p = Suc (length ?d)" using child_length [OF pch(1)] pch(2) by simp
    have nc: "node_at (fs s) ?t = None \<or> node_at (fs s) ?t = Some Dir"
      "node_at (fs s) ?dest = None"
      using Cons.prems(4) True by (simp_all add: no_collision_def)
    have pt: "p \<noteq> ?t" using c nc(1) by auto
    have pd: "p \<noteq> ?dest" by (rule length_neq) (simp add: lp)
    have dd: "?d \<noteq> ?dest" "?d \<noteq> ?t" "?d \<noteq> p"
      by (rule length_neq, simp add: lp)+
    have tc: "node_at (fs s) ?t = Some Dir
              \<or> node_at (fs s) ?t = None \<and> node_at (fs s) (parent ?t) = Some Dir"
      using nc(1) Cons.prems(1) by auto
    have dn: "node_at (fs s) ?dest \<noteq> Some Dir" using nc(2) by simp
    note mf = move_file_ok [OF c pch(1) pt joinpath_not_Nil tc dn pd]
    define s' where "s' = snd (move_file p ?t s)"
    have m: "move_file p ?t s = (Inr (), s')"
      using mf(1) by (cases "move_file p ?t s") (simp add: s'_def)
    have hs': "history s' = history s @ [(p, ?dest)]" using mf(2) by (simp add: s'_def)
    have ns': "node_at (fs s') q =
          (if q = ?dest then Some (File c) else if q = p then None
           else if q = ?t then Some Dir else node_at (fs s) q)" for q
      using mf(3) [of q] by (simp add: s'_def)
    have cs': "history_writable s' = history_writable s" "directory s' = ?d"
      "mappings s' = mappings s"
      using mf(4,5,6) by (simp_all add: s'_def)
    have lq: "length q = Suc (length ?d)" if "q \<in> set ps" for q
    proof -
      have "q \<noteq> []" "parent q = ?d" using Cons.prems(2) that by simp_all
      then show ?thesis using child_length [of q] by simp
    qed
    have same: "node_at (fs s') q = node_at (fs s) q" if q: "q \<in> set ps" "is_file (fs s) q" for q
    proof -
      have "q \<noteq> ?dest" using lq [OF q(1)] by (intro length_neq) simp
      moreover have "q \<noteq> p" using q(1) Cons.prems(3) by auto
      moreover have "q \<noteq> ?t" using q(2) nc(1) by (auto simp: is_file_def)
      ultimately show ?thesis by (simp add: ns')
    qed
    have star: "is_file (fs s) q" if q: "q \<in> set ps" "is_file (fs s') q" for q
    proof -
      have "q \<noteq> ?dest" using lq [OF q(1)] by (intro length_neq) simp
      with q(2) show ?thesis
        by (auto simp: is_file_def ns' split: if_splits)
    qed
    have iff: "is_file (fs s') q = is_file (fs s) q" if q: "q \<in> set ps" for q
      using star [OF q] same [OF q] by (auto simp: is_file_def)
    have flt: "filter (is_file (fs s')) ps = filter (is_file (fs s)) ps"
      by (rule filter_cong) (simp_all add: iff)
    have d': "node_at (fs s') (directory s') = Some Dir"
      using dd Cons.prems(1) by (simp add: ns' cs')
    have ch': "\<forall>q \<in> set ps. q \<noteq> [] \<and> parent q = directory s'"
      using Cons.prems(2) by (simp add: cs')
    have dist': "distinct ps" using Cons.prems(3) by simp
    \<comment> \<open>the paths of a later file are none of the paths of this one\<close>
    have apart: "?tdir q \<noteq> p \<and> ?dst q \<noteq> ?dest \<and> ?dst q \<noteq> p \<and> ?dst q \<noteq> ?t
        \<and> q \<noteq> p \<and> q \<noteq> ?dest \<and> q \<noteq> ?t \<and> ?tdir q \<noteq> ?dest"
      if q: "q \<in> set ps" "is_file (fs s) q" for q
    proof -
      have qch: "q \<noteq> []" "parent q = ?d" using Cons.prems(2) q(1) by simp_all
      have qn: "node_at (fs s) (?tdir q) = None \<or> node_at (fs s) (?tdir q) = Some Dir"
        using Cons.prems(4) q by (simp add: no_collision_def)
      have qp: "q \<noteq> p" using q(1) Cons.prems(3) by auto
      have t1: "?tdir q \<noteq> p" using qn c by auto
      have d1: "?dst q \<noteq> ?dest"
      proof
        assume "?dst q = ?dest"
        then have "name q = name p" by simp
        from child_eq [OF qch(1) pch(1) _ this] qch(2) pch(2) qp show False by simp
      qed
      have d2: "?dst q \<noteq> p" by (rule length_neq) (simp add: lp)
      have q2: "q \<noteq> ?dest" using lq [OF q(1)] by (intro length_neq) simp
      have q3: "q \<noteq> ?t" using q(2) nc(1) by (auto simp: is_file_def)
      show ?thesis using qp t1 d1 d2 q2 q3 by simp
    qed
    have H': "\<forall>q \<in> set ps. is_file (fs s') q \<longrightarrow>
              no_collision (fs s') (joinpath (directory s') (categorize (mappings s') q)) q"
    proof (intro ballI impI)
      fix q assume q: "q \<in> set ps" "is_file (fs s') q"
      have qf: "is_file (fs s) q" by (rule star [OF q])
      have qn: "node_at (fs s) (?tdir q) = None \<or> node_at (fs s) (?tdir q) = Some Dir"
        "node_at (fs s) (?dst q) = None"
        using Cons.prems(4) q(1) qf by (simp_all add: no_collision_def)
      show "no_collision (fs s') (joinpath (directory s') (categorize (mappings s') q)) q"
        using qn apart [OF q(1) qf] by (simp add: no_collision_def cs' ns')
    qed
    let ?s1 = "snd (organize_loop False ps s')"
    from Cons.IH [OF d' ch' dist' H'] have
      ih1: "history ?s1 = history s' @ map (\<lambda>p. (p, ?dst p)) (filter (is_file (fs s')) ps)"
      and ih2: "\<And>q. q \<in> set ps \<Longrightarrow> is_file (fs s') q \<Longrightarrow>
               node_at (fs ?s1) q = None \<and> node_at (fs ?s1) (?dst q) = node_at (fs s') q"
      and ih3: "\<And>q. (\<forall>p \<in> set ps. is_file (fs s') p \<longrightarrow> q \<noteq> p \<and> q \<noteq> ?tdir p \<and> q \<noteq> ?dst p)
               \<Longrightarrow> node_at (fs ?s1) q = node_at (fs s') q"
      by (simp_all add: cs')
    have o: "organize_loop False (p # ps) s = organize_loop False ps s'"
      using True m by (simp add: Let_def)
    have g1: "history ?s1 = history s @ map (\<lambda>p. (p, ?dst p)) (filter (is_file (fs s)) (p # ps))"
      using ih1 hs' True by (simp add: flt)
    have fp: "node_at (fs ?s1) p = None \<and> node_at (fs ?s1) ?dest = node_at (fs s) p"
    proof -
      have "node_at (fs ?s1) p = node_at (fs s') p"
        using apart star by (intro ih3) metis
      moreover have "node_at (fs ?s1) ?dest = node_at (fs s') ?dest"
        using apart star by (intro ih3) metis
      ultimately show ?thesis using c pd by (simp add: ns')
    qed
    have g2: "node_at (fs ?s1) q = None \<and> node_at (fs ?s1) (?dst q) = node_at (fs s) q"
      if q: "q \<in> set (p # ps)" "is_file (fs s) q" for q
    proof (cases "q = p")
      case True
      with fp show ?thesis by simp
    next
      case False
      with q have qs: "q \<in> set ps" by simp
      from ih2 [OF qs] iff [OF qs] q(2) same [OF qs q(2)] show ?thesis by simp
    qed
    have g3: "node_at (fs ?s1) q = node_at (fs s) q"
      if q: "\<forall>r \<in> set (p # ps). is_file (fs s) r \<longrightarrow> q \<noteq> r \<and> q \<noteq> ?tdir r \<and> q \<noteq> ?dst r" for q
    proof -
      have "node_at (fs ?s1) q = node_at (fs s') q"
        using q star by (intro ih3) auto
      moreover have "q \<noteq> p \<and> q \<noteq> ?t \<and> q \<noteq> ?dest" using q True by simp
      ultimately show ?thesis by (simp add: ns')
    qed
    show ?thesis
      unfolding o using g1 g2 g3 by blast
  qed
qed

lemma undo_last_saves:
  assumes "history s \<noteq> []" "history_writable s" "fst (undo_last s) = Inr b"
  shows "history_file (snd (undo_last s)) = Stored (butlast (history s))"
proof -
  from assms(1) obtain h src dest where h: "history s = h @ [(src, dest)]"
    by (cases "history s" rule: rev_cases) auto
  from h show ?thesis
  proof (cases rule: undo_last_cases)
    case stale
    with assms(2) h show ?thesis by simp
  next
    case (raised e)
    with assms(3) show ?thesis by simp
  next
    case (undone f)
    with assms(2) h show ?thesis by simp
  qed
qed

lemma undo_all_saves:
  "history s \<noteq> [] \<Longrightarrow> history_writable s \<Longrightarrow> fst (undo_all s) = Inr ()
     \<Longrightarrow> history_file (snd (undo_all s)) = Stored []"
proof (induction "length (history s)" arbitrary: s)
  case 0
  then show ?case by simp
next
  case (Suc m)
  obtain r s1 where u: "undo_last s = (r, s1)" by (cases "undo_last s")
  have h1: "history s1 = butlast (history s)"
    using undo_last_pops [OF Suc(3)] u by simp
  have w1: "history_writable s1" using undo_last_consts(1) [of s] u Suc(4) by simp
  show ?case
  proof (cases r)
    case (Inl e)
    with undo_all_raised [OF Suc(3)] u Suc(5) show ?thesis by simp
  next
    case (Inr b)
    have eq: "undo_all s = undo_all s1" using undo_all_next [OF Suc(3)] u Inr by simp
    have f1: "history_file s1 = Stored (history s1)"
      using undo_last_saves [OF Suc(3,4), of b] u Inr h1 by simp
    show ?thesis
    proof (cases "history s1 = []")
      case True
      with f1 show ?thesis by (simp add: eq undo_all_empty)
    next
      case False
      have "m = length (history s1)" using Suc(2) h1 by simp
      from Suc(1) [OF this False w1] Suc(5) show ?thesis by (simp add: eq)
    qed
  qed
qed

lemma iterdir_dir:
  "node_at f d = Some Dir \<Longrightarrow>
     iterdir f d = Inr (filter (\<lambda>p. p \<noteq> [] \<and> parent p = d) (map fst f))"
  by (simp add: iterdir_def)

lemma move_file_writable:
  "history_writable (snd (move_file p t s)) = history_writable s"
proof -
  obtain r1 s1 where m1: "mkdir t s = (r1, s1)" by (cases "mkdir t s")
  have w1: "history_writable s1 = history_writable s"
    using mkdir_more [of t s] m1 by (intro cleaner_more_fields) simp
  let ?dest = "joinpath t (name p)"
  let ?s2 = "record_move p ?dest s1"
  obtain r3 s3 where m3: "rename p ?dest ?s2 = (r3, s3)" by (cases "rename p ?dest ?s2")
  have w3: "history_writable s3 = history_writable ?s2"
    using rename_more [of p ?dest ?s2] m3 by (intro cleaner_more_fields) simp
  show ?thesis
    using w1 w3 m1 m3 by (cases r1; cases r3) (simp_all add: move_file_def Let_def)
qed

lemma organize_loop_writable:
  "history_writable (snd (organize_loop False ps s)) = history_writable s"
proof (induction ps arbitrary: s)
  case Nil
  show ?case by simp
next
  case (Cons p ps)
  let ?t = "joinpath (directory s) (categorize (mappings s) p)"
  obtain r s' where m: "move_file p ?t s = (r, s')" by (cases "move_file p ?t s")
  have "history_writable s' = history_writable s"
    using move_file_writable [of p ?t s] m by simp
  with m Cons.IH show ?case by (cases r) (simp_all add: Let_def)
qed

lemma cleaner_round_trip:
  assumes d: "node_at (fs s) (directory s) = Some Dir"
    and h: "history s = []"
    and dist: "distinct (map fst (fs s))"
    and H: "\<forall>p \<in> set (map fst (fs s)).
              p \<noteq> [] \<and> parent p = directory s \<and> is_file (fs s) p \<longrightarrow>
              no_collision (fs s) (joinpath (directory s) (categorize (mappings s) p)) p"
  shows "fst (organize False s) = Inr ()
    \<and> fst (undo_all (snd (organize False s))) = Inr ()
    \<and> (\<forall>p \<in> set (map fst (fs s)).
          p \<noteq> [] \<and> parent p = directory s \<and> is_file (fs s) p \<longrightarrow>
            node_at (fs (snd (organize False s))) p = None
          \<and> node_at (fs (snd (organize False s)))
               (joinpath (joinpath (directory s) (categorize (mappings s) p)) (name p))
             = node_at (fs s) p
          \<and> (p, joinpath (joinpath (directory s) (categorize (mappings s) p)) (name p))
               \<in> set (history (snd (organize False s))))
    \<and> history (snd (undo_all (snd (organize False s)))) = []
    \<and> (history_writable s \<and> history (snd (organize False s)) \<noteq> [] \<longrightarrow>
          history_file (snd (undo_all (snd (organize False s)))) = Stored [])
    \<and> (\<forall>q. node_at (fs s) q \<noteq> None \<longrightarrow>
          node_at (fs (snd (undo_all (snd (organize False s))))) q = node_at (fs s) q)
    \<and> (\<forall>q. node_at (fs s) q = None \<longrightarrow>
          node_at (fs (snd (undo_all (snd (organize False s))))) q = None
          \<or> node_at (fs (snd (undo_all (snd (organize False s))))) q = Some Dir)"
proof -
  let ?d = "directory s"
  let ?s0 = "info (Organizing ?d) s"
  let ?ps = "filter (\<lambda>p. p \<noteq> [] \<and> parent p = ?d) (map fst (fs s))"
  let ?tdir = "\<lambda>p. joinpath ?d (categorize (mappings s) p)"
  let ?dst = "\<lambda>p. joinpath (?tdir p) (name p)"
  have o: "organize False s = organize_loop False ?ps ?s0"
    using iterdir_dir [OF d] by (simp add: organize_def Let_def)
  have d0: "node_at (fs ?s0) (directory ?s0) = Some Dir" using d by simp
  have ch0: "\<forall>p \<in> set ?ps. p \<noteq> [] \<and> parent p = directory ?s0" by simp
  have dist0: "distinct ?ps" using dist by simp
  have H0: "\<forall>p \<in> set ?ps. is_file (fs ?s0) p \<longrightarrow>
              no_collision (fs ?s0) (joinpath (directory ?s0) (categorize (mappings ?s0) p)) p"
    using H by auto
  from round_trip_loop [OF d0 ch0 H0] obtain s1 s2 where
    rt: "organize_loop False ?ps ?s0 = (Inr (), s1)" "undo_all s1 = undo_all s2"
      "restored_from (?tdir ` {p \<in> set ?ps. is_file (fs s) p}) ?s0 s2"
    by auto
  have h2: "history s2 = []" using rt(3) h by (simp add: restored_from_def)
  have ua: "undo_all s1 = (Inr (), s2)" using rt(2) undo_all_empty [OF h2] by simp
  have n2: "node_at (fs s2) q = node_at (fs s) q
            \<or> (node_at (fs s) q = None \<and> node_at (fs s2) q = Some Dir)" for q
    using rt(3) by (auto simp: restored_from_def)
  from organize_loop_moves [OF d0 ch0 dist0 H0] rt(1) have
    mv1: "history s1 = map (\<lambda>p. (p, ?dst p)) (filter (is_file (fs s)) ?ps)"
    and mv2: "\<And>p. p \<in> set ?ps \<Longrightarrow> is_file (fs s) p \<Longrightarrow>
                node_at (fs s1) p = None \<and> node_at (fs s1) (?dst p) = node_at (fs s) p"
    by (simp_all add: h)
  have w1: "history_writable s1 = history_writable s"
    using organize_loop_writable [of ?ps ?s0] rt(1) by simp
  have c5: "history_file s2 = Stored []" if "history_writable s" "history s1 \<noteq> []"
    using undo_all_saves [of s1] that w1 ua by simp
  have c3: "node_at (fs s1) p = None \<and> node_at (fs s1) (?dst p) = node_at (fs s) p
      \<and> (p, ?dst p) \<in> set (history s1)"
    if "p \<in> set (map fst (fs s))" "p \<noteq> [] \<and> parent p = ?d \<and> is_file (fs s) p" for p
  proof -
    have "p \<in> set ?ps" using that by simp
    with mv2 [of p] that(2) show ?thesis by (simp add: mv1)
  qed
  have c6: "node_at (fs s2) q = node_at (fs s) q" if "node_at (fs s) q \<noteq> None" for q
    using n2 [of q] that by simp
  have c7: "node_at (fs s2) q = None \<or> node_at (fs s2) q = Some Dir"
    if "node_at (fs s) q = None" for q
    using n2 [of q] that by auto
  show ?thesis
    unfolding o rt(1) snd_conv fst_conv ua
    using c3 c5 c6 c7 h2 by blast
qed


section \<open>Cleaning the desktop and undoing the last run\<close>

lemma mkdir_ok:
  assumes "t \<noteq> []"
    and "node_at (fs s) t = Some Dir
         \<or> node_at (fs s) t = None \<and> node_at (fs s) (parent t) = Some Dir"
  obtains s1 where "mkdir t s = (Inr (), s1)"
    and "\<And>q. node_at (fs s1) q = (if q = t then Some Dir else node_at (fs s) q)"
    and "world.more s1 = world.more s"
proof (cases "node_at (fs s) t = None")
  case True
  with assms(2) have dir: "node_at (fs s) (parent t) = Some Dir" by simp
  show ?thesis
    by (rule that [OF mkdir_new [OF True dir]]) (simp_all add: node_at_update assms(1))
next
  case False
  with assms(2) have d: "node_at (fs s) t = Some Dir" by simp
  show ?thesis
    by (rule that [OF mkdir_old [OF d]]) (simp_all add: d)
qed

lemma mkdir_parents_existing:
  assumes "node_at (fs s) p = Some Dir"
  shows "mkdir_parents p s = (Inr (), s)"
  by (subst mkdir_parents.simps) (simp add: mkdir_old [OF assms])

lemma sorted_le_last:
  fixes xs :: "nat list"
  shows "sorted xs \<Longrightarrow> x \<in> set xs \<Longrightarrow> x \<le> last xs"
  by (induction xs) auto

lemma last_sort_max:
  fixes ks :: "nat list"
  assumes "k \<in> set ks" "\<forall>j \<in> set ks. j \<le> k"
  shows "last (sort ks) = k"
proof -
  have "set (sort ks) \<noteq> {}" using assms(1) by auto
  then have ne: "sort ks \<noteq> []" by (simp del: set_sort)
  have "last (sort ks) \<in> set (sort ks)" using ne by (rule last_in_set)
  then have le: "last (sort ks) \<le> k" using assms(2) by simp
  have "k \<le> last (sort ks)" using assms(1) by (intro sorted_le_last) simp_all
  with le show ?thesis by simp
qed

lemma move_loop_moves:
  assumes dd: "node_at (fs d) desktop = Some Dir"
    and ch: "\<forall>p \<in> set srcs. p \<noteq> [] \<and> parent p = desktop
               \<and> path_exists (fs d) p \<and> \<not> is_dir (fs d) p"
    and dist: "distinct srcs"
    and H: "\<forall>p \<in> set srcs. no_collision (fs d) (joinpath desktop (classify_file p)) p"
  shows "fst (move_loop (map (\<lambda>src. (src, joinpath desktop (classify_file src))) srcs) d) = Inr ()
    \<and> (\<forall>p \<in> set srcs.
          node_at (fs (snd (move_loop (map (\<lambda>src. (src, joinpath desktop (classify_file src))) srcs) d))) p
            = None
          \<and> node_at (fs (snd (move_loop (map (\<lambda>src. (src, joinpath desktop (classify_file src))) srcs) d)))
              (joinpath (joinpath desktop (classify_file p)) (name p)) = node_at (fs d) p
          \<and> node_at (fs (snd (move_loop (map (\<lambda>src. (src, joinpath desktop (classify_file src))) srcs) d)))
              (joinpath desktop (classify_file p)) = Some Dir)
    \<and> (\<forall>q. (\<forall>p \<in> set srcs. q \<noteq> p \<and> q \<noteq> joinpath desktop (classify_file p)
                 \<and> q \<noteq> joinpath (joinpath desktop (classify_file p)) (name p))
          \<longrightarrow> node_at (fs (snd (move_loop (map (\<lambda>src. (src, joinpath desktop (classify_file src))) srcs) d))) q
              = node_at (fs d) q)"
  using assms
proof (induction srcs arbitrary: d)
  case Nil
  show ?case by simp
next
  case (Cons p ps)
  let ?tdir = "\<lambda>p. joinpath desktop (classify_file p)"
  let ?dst = "\<lambda>p. joinpath (?tdir p) (name p)"
  let ?plan = "\<lambda>ps. map (\<lambda>src. (src, ?tdir src)) ps"
  let ?t = "?tdir p"
  let ?dest = "?dst p"
  have pch: "p \<noteq> []" "parent p = desktop" using Cons.prems(2) by simp_all
  obtain sn where sn: "node_at (fs d) p = Some sn" "sn \<noteq> Dir"
    using Cons.prems(2) by (auto simp: path_exists_def is_dir_def)
  have lp: "length p = Suc (length desktop)" using child_length [OF pch(1)] pch(2) by simp
  have nc: "node_at (fs d) ?t = None \<or> node_at (fs d) ?t = Some Dir"
    "node_at (fs d) ?dest = None"
    using Cons.prems(4) by (simp_all add: no_collision_def)
  have pt: "p \<noteq> ?t" using sn nc(1) by auto
  have pd: "p \<noteq> ?dest" by (rule length_neq) (simp add: lp)
  have dsk: "desktop \<noteq> ?dest" "desktop \<noteq> ?t" "desktop \<noteq> p"
    by (rule length_neq, simp add: lp)+
  have tc: "node_at (fs d) ?t = Some Dir
            \<or> node_at (fs d) ?t = None \<and> node_at (fs d) (parent ?t) = Some Dir"
    using nc(1) Cons.prems(1) by auto
  from mkdir_ok [OF joinpath_not_Nil tc] obtain d1 where
    m1: "mkdir ?t d = (Inr (), d1)"
    and n1: "\<And>q. node_at (fs d1) q = (if q = ?t then Some Dir else node_at (fs d) q)"
    by blast
  let ?d2 = "d1\<lparr>fs := AList.update ?dest sn (AList.delete p (fs d1)),
               effects := effects d1 @ [Renamed p ?dest]\<rparr>"
  have sm: "shutil_move p ?dest d1 = (Inr (), ?d2)"
    by (rule shutil_move_onto) (use sn pch pt pd nc in \<open>simp_all add: n1\<close>)
  define d' where "d' = print (MovedLine (name p) (name ?t)) ?d2"
  have o: "move_loop (?plan (p # ps)) d = move_loop (?plan ps) d'"
    by (simp add: m1 sm d'_def)
  have nd': "node_at (fs d') q =
          (if q = ?dest then Some sn else if q = p then None
           else if q = ?t then Some Dir else node_at (fs d) q)" for q
    using pch(1) by (simp add: d'_def node_at_update node_at_delete n1)
  have lq: "length q = Suc (length desktop)" if "q \<in> set ps" for q
  proof -
    have "q \<noteq> []" "parent q = desktop" using Cons.prems(2) that by simp_all
    then show ?thesis using child_length [of q] by simp
  qed
  \<comment> \<open>the paths of a later entry are none of the paths of this one\<close>
  have apart: "?tdir q \<noteq> p \<and> ?dst q \<noteq> ?dest \<and> ?dst q \<noteq> p \<and> ?dst q \<noteq> ?t
        \<and> q \<noteq> p \<and> q \<noteq> ?dest \<and> q \<noteq> ?t \<and> ?tdir q \<noteq> ?dest"
    if q: "q \<in> set ps" for q
  proof -
    have qch: "q \<noteq> []" "parent q = desktop" "path_exists (fs d) q" "\<not> is_dir (fs d) q"
      using Cons.prems(2) q by simp_all
    have qn: "node_at (fs d) (?tdir q) = None \<or> node_at (fs d) (?tdir q) = Some Dir"
      using Cons.prems(4) q by (simp add: no_collision_def)
    have qp: "q \<noteq> p" using q Cons.prems(3) by auto
    have t1: "?tdir q \<noteq> p" using qn sn by auto
    have d1: "?dst q \<noteq> ?dest"
    proof
      assume "?dst q = ?dest"
      then have "name q = name p" by simp
      from child_eq [OF qch(1) pch(1) _ this] qch(2) pch(2) qp show False by simp
    qed
    have d2: "?dst q \<noteq> p" by (rule length_neq) (simp add: lp)
    have q2: "q \<noteq> ?dest" using lq [OF q] by (intro length_neq) simp
    have q3: "q \<noteq> ?t" using qch(3,4) nc(1) by (auto simp: path_exists_def is_dir_def)
    show ?thesis using qp t1 d1 d2 q2 q3 by simp
  qed
  have same: "node_at (fs d') q = node_at (fs d) q" if q: "q \<in> set ps" for q
    using apart [OF q] by (simp add: nd')
  have dd': "node_at (fs d') desktop = Some Dir"
    using dsk Cons.prems(1) by (simp add: nd')
  have ch': "\<forall>q \<in> set ps. q \<noteq> [] \<and> parent q = desktop
               \<and> path_exists (fs d') q \<and> \<not> is_dir (fs d') q"
    using Cons.prems(2) same by (simp add: path_exists_def is_dir_def)
  have dist': "distinct ps" using Cons.prems(3) by simp
  have H': "\<forall>q \<in> set ps. no_collision (fs d') (?tdir q) q"
  proof
    fix q assume q: "q \<in> set ps"
    have qn: "node_at (fs d) (?tdir q) = None \<or> node_at (fs d) (?tdir q) = Some Dir"
      "node_at (fs d) (?dst q) = None"
      using Cons.prems(4) q by (simp_all add: no_collision_def)
    show "no_collision (fs d') (?tdir q) q"
      using qn apart [OF q] by (simp add: no_collision_def nd')
  qed
  let ?x = "snd (move_loop (?plan ps) d')"
  from Cons.IH [OF dd' ch' dist' H'] have
    ih0: "fst (move_loop (?plan ps) d') = Inr ()"
    and ih2: "\<And>q. q \<in> set ps \<Longrightarrow> node_at (fs ?x) q = None
                \<and> node_at (fs ?x) (?dst q) = node_at (fs d') q
                \<and> node_at (fs ?x) (?tdir q) = Some Dir"
    and ih3: "\<And>q. (\<forall>p \<in> set ps. q \<noteq> p \<and> q \<noteq> ?tdir p \<and> q \<noteq> ?dst p)
               \<Longrightarrow> node_at (fs ?x) q = node_at (fs d') q"
    by simp_all
  have fp: "node_at (fs ?x) p = None \<and> node_at (fs ?x) ?dest = node_at (fs d) p"
  proof -
    have "node_at (fs ?x) p = node_at (fs d') p"
      using apart by (intro ih3) metis
    moreover have "node_at (fs ?x) ?dest = node_at (fs d') ?dest"
      using apart by (intro ih3) metis
    ultimately show ?thesis using sn pd by (simp add: nd')
  qed
  have ft: "node_at (fs ?x) ?t = Some Dir"
  proof (cases "\<exists>q \<in> set ps. ?tdir q = ?t")
    case True
    then obtain q where "q \<in> set ps" "?tdir q = ?t" by blast
    with ih2 [of q] show ?thesis by simp
  next
    case False
    have "node_at (fs ?x) ?t = node_at (fs d') ?t"
      using apart False by (intro ih3) (metis joinpath2_neq(2))
    then show ?thesis using pt by (simp add: nd')
  qed
  have g2: "node_at (fs ?x) q = None \<and> node_at (fs ?x) (?dst q) = node_at (fs d) q
      \<and> node_at (fs ?x) (?tdir q) = Some Dir"
    if q: "q \<in> set (p # ps)" for q
  proof (cases "q = p")
    case True
    with fp ft show ?thesis by simp
  next
    case False
    with q have qs: "q \<in> set ps" by simp
    from ih2 [OF qs] same [OF qs] show ?thesis by simp
  qed
  have g3: "node_at (fs ?x) q = node_at (fs d) q"
    if q: "\<forall>r \<in> set (p # ps). q \<noteq> r \<and> q \<noteq> ?tdir r \<and> q \<noteq> ?dst r" for q
  proof -
    have "node_at (fs ?x) q = node_at (fs d') q"
      using q by (intro ih3) auto
    moreover have "q \<noteq> p \<and> q \<noteq> ?t \<and> q \<noteq> ?dest" using q by simp
    ultimately show ?thesis by (simp add: nd')
  qed
  show ?case
    unfolding o using ih0 g2 g3 by blast
qed

lemma undo_loop_restores:
  assumes dd: "node_at (fs x) desktop = Some Dir"
    and ch: "\<forall>p \<in> set srcs. p \<noteq> [] \<and> parent p = desktop \<and> node_at (fs x) p = None
               \<and> path_exists (fs x) (joinpath (joinpath desktop (classify_file p)) (name p))
               \<and> \<not> is_dir (fs x) (joinpath (joinpath desktop (classify_file p)) (name p))"
    and dist: "distinct srcs"
  shows "fst (undo_loop (map (\<lambda>p. (p, joinpath (joinpath desktop (classify_file p)) (name p))) srcs)
                u k x) = Inr (u + length srcs, k)
    \<and> (\<forall>p \<in> set srcs.
          node_at (fs (snd (undo_loop
              (map (\<lambda>p. (p, joinpath (joinpath desktop (classify_file p)) (name p))) srcs) u k x))) p
            = node_at (fs x) (joinpath (joinpath desktop (classify_file p)) (name p))
          \<and> node_at (fs (snd (undo_loop
              (map (\<lambda>p. (p, joinpath (joinpath desktop (classify_file p)) (name p))) srcs) u k x)))
              (joinpath (joinpath desktop (classify_file p)) (name p)) = None)
    \<and> (\<forall>q. (\<forall>p \<in> set srcs. q \<noteq> p
                 \<and> q \<noteq> joinpath (joinpath desktop (classify_file p)) (name p))
          \<longrightarrow> node_at (fs (snd (undo_loop
              (map (\<lambda>p. (p, joinpath (joinpath desktop (classify_file p)) (name p))) srcs) u k x))) q
              = node_at (fs x) q)"
  using assms
proof (induction srcs arbitrary: x u)
  case Nil
  show ?case by simp
next
  case (Cons p ps)
  let ?dst = "\<lambda>p. joinpath (joinpath desktop (classify_file p)) (name p)"
  let ?recs = "\<lambda>ps. map (\<lambda>p. (p, ?dst p)) ps"
  let ?dest = "?dst p"
  have pch: "p \<noteq> []" "parent p = desktop" "node_at (fs x) p = None"
    "path_exists (fs x) ?dest" using Cons.prems(2) by simp_all
  obtain sn where sn: "node_at (fs x) ?dest = Some sn" "sn \<noteq> Dir"
    using Cons.prems(2) by (auto simp: path_exists_def is_dir_def)
  have lp: "length p = Suc (length desktop)" using child_length [OF pch(1)] pch(2) by simp
  have pd: "?dest \<noteq> p" by (rule length_neq) (simp add: lp)
  have dsk: "desktop \<noteq> ?dest" "desktop \<noteq> p"
    by (rule length_neq, simp add: lp)+
  have mp: "mkdir_parents (parent p) x = (Inr (), x)"
    using Cons.prems(1) pch(2) by (simp add: mkdir_parents_existing)
  let ?x2 = "x\<lparr>fs := AList.update p sn (AList.delete ?dest (fs x)),
               effects := effects x @ [Renamed ?dest p]\<rparr>"
  have sm: "shutil_move ?dest p x = (Inr (), ?x2)"
    by (rule shutil_move_onto) (use sn pch pd Cons.prems(1) in simp_all)
  define x' where "x' = print (UndoLine (name ?dest) (parent p)) ?x2"
  have o: "undo_loop (?recs (p # ps)) u k x = undo_loop (?recs ps) (u + 1) k x'"
    using pch(4) by (simp add: mp sm x'_def)
  have nx': "node_at (fs x') q =
          (if q = p then Some sn else if q = ?dest then None else node_at (fs x) q)" for q
    using pch(1) by (simp add: x'_def node_at_update node_at_delete)
  have apart: "q \<noteq> p \<and> q \<noteq> ?dest \<and> ?dst q \<noteq> p \<and> ?dst q \<noteq> ?dest"
    if q: "q \<in> set ps" for q
  proof -
    have qch: "q \<noteq> []" "parent q = desktop" using Cons.prems(2) q by simp_all
    have lq: "length q = Suc (length desktop)" using child_length [OF qch(1)] qch(2) by simp
    have qp: "q \<noteq> p" using q Cons.prems(3) by auto
    have d1: "?dst q \<noteq> ?dest"
    proof
      assume "?dst q = ?dest"
      then have "name q = name p" by simp
      from child_eq [OF qch(1) pch(1) _ this] qch(2) pch(2) qp show False by simp
    qed
    have d2: "?dst q \<noteq> p" by (rule length_neq) (simp add: lp)
    have q2: "q \<noteq> ?dest" using lq by (intro length_neq) simp
    show ?thesis using qp d1 d2 q2 by simp
  qed
  have dd': "node_at (fs x') desktop = Some Dir"
    using dsk Cons.prems(1) by (simp add: nx')
  have ch': "\<forall>q \<in> set ps. q \<noteq> [] \<and> parent q = desktop \<and> node_at (fs x') q = None
               \<and> path_exists (fs x') (?dst q) \<and> \<not> is_dir (fs x') (?dst q)"
    using Cons.prems(2) apart by (simp add: path_exists_def is_dir_def nx')
  have dist': "distinct ps" using Cons.prems(3) by simp
  let ?y = "snd (undo_loop (?recs ps) (u + 1) k x')"
  from Cons.IH [OF dd' ch' dist', of "u + 1"] have
    ih0: "fst (undo_loop (?recs ps) (u + 1) k x') = Inr (u + 1 + length ps, k)"
    and ih2: "\<And>q. q \<in> set ps \<Longrightarrow> node_at (fs ?y) q = node_at (fs x') (?dst q)
                \<and> node_at (fs ?y) (?dst q) = None"
    and ih3: "\<And>q. (\<forall>p \<in> set ps. q \<noteq> p \<and> q \<noteq> ?dst p)
               \<Longrightarrow> node_at (fs ?y) q = node_at (fs x') q"
    by simp_all
  have fp: "node_at (fs ?y) p = node_at (fs x) ?dest \<and> node_at (fs ?y) ?dest = None"
  proof -
    have "node_at (fs ?y) p = node_at (fs x') p"
      using apart by (intro ih3) metis
    moreover have "node_at (fs ?y) ?dest = node_at (fs x') ?dest"
      using apart by (intro ih3) metis
    ultimately show ?thesis using sn pd by (simp add: nx')
  qed
  have g2: "node_at (fs ?y) q = node_at (fs x) (?dst q) \<and> node_at (fs ?y) (?dst q) = None"
    if q: "q \<in> set (p # ps)" for q
  proof (cases "q = p")
    case True
    with fp show ?thesis by simp
  next
    case False
    with q have qs: "q \<in> set ps" by simp
    from ih2 [OF qs] apart [OF qs] show ?thesis by (auto simp: nx')
  qed
  have g3: "node_at (fs ?y) q = node_at (fs x) q"
    if q: "\<forall>r \<in> set (p # ps). q \<noteq> r \<and> q \<noteq> ?dst r" for q
  proof -
    have "node_at (fs ?y) q = node_at (fs x') q"
      using q by (intro ih3) auto
    moreover have "q \<noteq> p \<and> q \<noteq> ?dest" using q by simp
    ultimately show ?thesis by (simp add: nx')
  qed
  have g0: "fst (undo_loop (?recs ps) (u + 1) k x') = Inr (u + length (p # ps), k)"
    using ih0 by simp
  show ?case
    unfolding o using g0 g2 g3 by blast
qed

lemma listed_exists: "p \<in> set (map fst f) \<Longrightarrow> p \<noteq> [] \<Longrightarrow> path_exists f p"
  by (simp add: path_exists_def node_at_def map_of_eq_None_iff)

lemma desktop_round_trip:
  assumes dd: "node_at (fs d) desktop = Some Dir"
    and dist: "distinct (map fst (fs d))"
    and latest: "\<forall>k \<in> set (map fst (log_dir d)). k \<le> now"
    and H: "\<forall>p \<in> set (map fst (fs d)).
              p \<noteq> [] \<and> parent p = desktop \<and> \<not> is_dir (fs d) p \<and> \<not> startswith (name p) ''.''
              \<longrightarrow> no_collision (fs d) (joinpath desktop (classify_file p)) p"
    and some: "plan_moves (fs d) desktop \<noteq> Inr []"
  shows "(\<exists>n. fst (clean_desktop desktop False now d) = Inr n)
    \<and> fst (undo_last_run (snd (clean_desktop desktop False now d))) = Inr ()
    \<and> (\<forall>p \<in> set (map fst (fs d)).
          p \<noteq> [] \<and> parent p = desktop \<and> \<not> is_dir (fs d) p \<and> \<not> startswith (name p) ''.''
          \<longrightarrow> node_at (fs (snd (clean_desktop desktop False now d))) p = None
              \<and> node_at (fs (snd (clean_desktop desktop False now d)))
                   (joinpath (joinpath desktop (classify_file p)) (name p)) = node_at (fs d) p)
    \<and> (\<forall>q. node_at (fs d) q \<noteq> None \<longrightarrow>
          node_at (fs (snd (undo_last_run (snd (clean_desktop desktop False now d))))) q
            = node_at (fs d) q)
    \<and> (\<forall>q. node_at (fs d) q = None \<longrightarrow>
          node_at (fs (snd (undo_last_run (snd (clean_desktop desktop False now d))))) q = None
          \<or> node_at (fs (snd (undo_last_run (snd (clean_desktop desktop False now d))))) q
              = Some Dir)"
proof -
  let ?tdir = "\<lambda>p. joinpath desktop (classify_file p)"
  let ?dst = "\<lambda>p. joinpath (?tdir p) (name p)"
  let ?srcs = "filter (\<lambda>p. \<not> is_dir (fs d) p \<and> \<not> startswith (name p) ''.'')
                 (filter (\<lambda>p. p \<noteq> [] \<and> parent p = desktop) (map fst (fs d)))"
  let ?plan = "map (\<lambda>src. (src, ?tdir src)) ?srcs"
  let ?lines = "map (\<lambda>p. (p, ?dst p)) ?srcs"
  have pm: "plan_moves (fs d) desktop = Inr ?plan"
    by (simp add: plan_moves_def iter_desktop_files_def iterdir_dir [OF dd])
  have ne: "?plan \<noteq> []" using some pm by auto
  have ch: "\<forall>p \<in> set ?srcs. p \<noteq> [] \<and> parent p = desktop
               \<and> path_exists (fs d) p \<and> \<not> is_dir (fs d) p"
  proof
    fix p assume p: "p \<in> set ?srcs"
    then have "p \<in> set (map fst (fs d))" "p \<noteq> []" by simp_all
    then have "path_exists (fs d) p" by (rule listed_exists)
    with p show "p \<noteq> [] \<and> parent p = desktop \<and> path_exists (fs d) p \<and> \<not> is_dir (fs d) p"
      by simp
  qed
  have dsrc: "distinct ?srcs" using dist by simp
  have H': "\<forall>p \<in> set ?srcs. no_collision (fs d) (?tdir p) p" using H by auto
  define x1 where "x1 = snd (move_loop ?plan d)"
  from move_loop_moves [OF dd ch dsrc H'] have
    mv0: "move_loop ?plan d = (Inr (), x1)"
    and mv2: "\<And>p. p \<in> set ?srcs \<Longrightarrow> node_at (fs x1) p = None
                \<and> node_at (fs x1) (?dst p) = node_at (fs d) p
                \<and> node_at (fs x1) (?tdir p) = Some Dir"
    and mv3: "\<And>q. (\<forall>p \<in> set ?srcs. q \<noteq> p \<and> q \<noteq> ?tdir p \<and> q \<noteq> ?dst p)
               \<Longrightarrow> node_at (fs x1) q = node_at (fs d) q"
    unfolding x1_def by (simp_all add: prod_eq_iff)
  have l1: "log_dir x1 = log_dir d" using move_loop_effects [of ?plan d] by (simp add: x1_def)
  define x3 where "x3 = snd (clean_desktop desktop False now d)"
  have cd: "clean_desktop desktop False now d = (Inr (length ?plan), x3)"
    and f3: "fs x3 = fs x1"
    and l3: "log_dir x3 = AList.update now ?lines (log_dir d)"
    unfolding x3_def using pm ne mv0 l1
    by (simp_all add: clean_desktop_def write_log_def Let_def comp_def)
  \<comment> \<open>the log just written is the latest\<close>
  have keys: "now \<in> set (map fst (log_dir x3))" "\<forall>j \<in> set (map fst (log_dir x3)). j \<le> now"
    using latest by (auto simp: l3 update_keys)
  have lastk: "last (sort (map fst (log_dir x3))) = now"
    by (rule last_sort_max [OF keys])
  have sne: "sort (map fst (log_dir x3)) \<noteq> []"
  proof -
    have "set (sort (map fst (log_dir x3))) \<noteq> {}" using keys(1) by auto
    then show ?thesis by (simp del: set_sort)
  qed
  have pl: "parse_log x3 now = Inr ?lines"
    by (simp add: parse_log_def l3 update_conv')
  have lne: "?lines \<noteq> []" using ne by simp
  let ?x = "print (Undoing now) x3"
  have nx: "node_at (fs ?x) q = node_at (fs x1) q" for q by (simp add: f3)
  have lens: "length p = Suc (length desktop)" if "p \<in> set ?srcs" for p
    using child_length [of p] that by auto
  have ddx: "node_at (fs ?x) desktop = Some Dir"
  proof -
    have "\<forall>p \<in> set ?srcs. desktop \<noteq> p \<and> desktop \<noteq> ?tdir p \<and> desktop \<noteq> ?dst p"
    proof
      fix p assume "p \<in> set ?srcs"
      from lens [OF this] show "desktop \<noteq> p \<and> desktop \<noteq> ?tdir p \<and> desktop \<noteq> ?dst p"
        by (intro conjI length_neq) simp_all
    qed
    from mv3 [OF this] dd show ?thesis by (simp add: f3)
  qed
  have chx: "\<forall>p \<in> set ?srcs. p \<noteq> [] \<and> parent p = desktop \<and> node_at (fs ?x) p = None
               \<and> path_exists (fs ?x) (?dst p) \<and> \<not> is_dir (fs ?x) (?dst p)"
  proof
    fix p assume p: "p \<in> set ?srcs"
    with ch have "path_exists (fs d) p" "\<not> is_dir (fs d) p" "p \<noteq> []" "parent p = desktop"
      by simp_all
    with mv2 [OF p] show "p \<noteq> [] \<and> parent p = desktop \<and> node_at (fs ?x) p = None
               \<and> path_exists (fs ?x) (?dst p) \<and> \<not> is_dir (fs ?x) (?dst p)"
      by (simp add: f3 path_exists_def is_dir_def)
  qed
  define y where "y = snd (undo_loop ?lines 0 0 ?x)"
  from undo_loop_restores [OF ddx chx dsrc, of 0 0] have
    ul0: "undo_loop ?lines 0 0 ?x = (Inr (length ?srcs, 0), y)"
    and ul2: "\<And>p. p \<in> set ?srcs \<Longrightarrow> node_at (fs y) p = node_at (fs ?x) (?dst p)
                \<and> node_at (fs y) (?dst p) = None"
    and ul3: "\<And>q. (\<forall>p \<in> set ?srcs. q \<noteq> p \<and> q \<noteq> ?dst p)
               \<Longrightarrow> node_at (fs y) q = node_at (fs ?x) q"
    unfolding y_def by (simp_all add: prod_eq_iff)
  have ur: "undo_last_run x3 = (Inr (), print (UndoComplete (length ?srcs) 0) y)"
    using sne lastk pl lne ul0 by (simp add: undo_last_run_def Let_def)
  \<comment> \<open>every path holds what it held, or is a new folder\<close>
  have final: "node_at (fs y) q = node_at (fs d) q
      \<or> (node_at (fs d) q = None \<and> node_at (fs y) q = Some Dir)" for q
  proof (cases "\<exists>p \<in> set ?srcs. q = p \<or> q = ?dst p")
    case True
    then obtain p where p: "p \<in> set ?srcs" "q = p \<or> q = ?dst p" by blast
    have "node_at (fs d) (?dst p) = None" using H' p(1) by (simp add: no_collision_def)
    with p(2) ul2 [OF p(1)] mv2 [OF p(1)] show ?thesis by (auto simp: f3)
  next
    case False
    then have "\<forall>p \<in> set ?srcs. q \<noteq> p \<and> q \<noteq> ?dst p" by blast
    from ul3 [OF this] have e: "node_at (fs y) q = node_at (fs x1) q" by (simp add: f3)
    show ?thesis
    proof (cases "\<exists>p \<in> set ?srcs. q = ?tdir p")
      case True
      then obtain p where p: "p \<in> set ?srcs" "q = ?tdir p" by blast
      have "node_at (fs d) q = None \<or> node_at (fs d) q = Some Dir"
        using H' p by (simp add: no_collision_def)
      with e mv2 [OF p(1)] p(2) show ?thesis by auto
    next
      case False
      with \<open>\<forall>p \<in> set ?srcs. q \<noteq> p \<and> q \<noteq> ?dst p\<close>
      have "\<forall>p \<in> set ?srcs. q \<noteq> p \<and> q \<noteq> ?tdir p \<and> q \<noteq> ?dst p" by blast
      from mv3 [OF this] e show ?thesis by simp
    qed
  qed
  have c3: "node_at (fs x3) p = None \<and> node_at (fs x3) (?dst p) = node_at (fs d) p"
    if "p \<in> set (map fst (fs d))"
      "p \<noteq> [] \<and> parent p = desktop \<and> \<not> is_dir (fs d) p \<and> \<not> startswith (name p) ''.''" for p
  proof -
    have "p \<in> set ?srcs" using that by simp
    from mv2 [OF this] show ?thesis by (simp add: f3)
  qed
  have c1: "\<exists>n. fst (clean_desktop desktop False now d) = Inr n" by (simp add: cd)
  have fy: "fs (snd (undo_last_run x3)) = fs y" by (simp add: ur)
  have c4: "node_at (fs (snd (undo_last_run x3))) q = node_at (fs d) q"
    if "node_at (fs d) q \<noteq> None" for q
    using final [of q] that by (simp add: fy)
  have c5: "node_at (fs (snd (undo_last_run x3))) q = None
      \<or> node_at (fs (snd (undo_last_run x3))) q = Some Dir"
    if "node_at (fs d) q = None" for q
    using final [of q] that by (auto simp: fy)
  have c2: "fst (undo_last_run x3) = Inr ()" by (simp add: ur)
  show ?thesis
    unfolding x3_def [symmetric]
  proof (intro conjI ballI allI impI)
    show "\<exists>n. fst (clean_desktop desktop False now d) = Inr n" by (rule c1)
    show "fst (undo_last_run x3) = Inr ()" by (rule c2)
  next
    fix p
    assume "p \<in> set (map fst (fs d))"
      "p \<noteq> [] \<and> parent p = desktop \<and> \<not> is_dir (fs d) p \<and> \<not> startswith (name p) ''.''"
    then show "node_at (fs x3) p = None" "node_at (fs x3) (?dst p) = node_at (fs d) p"
      using c3 [of p] by simp_all
  next
    fix q assume "node_at (fs d) q \<noteq> None"
    then show "node_at (fs (snd (undo_last_run x3))) q = node_at (fs d) q" by (rule c4)
  next
    fix q assume "node_at (fs d) q = None"
    then show "node_at (fs (snd (undo_last_run x3))) q = None
      \<or> node_at (fs (snd (undo_last_run x3))) q = Some Dir" by (rule c5)
  qed
qed






end
